theory Spec2Isabelle
  imports Complex_Main "HOL-Library.Word"
begin

section \<open>Data common to the modules\<close>

text \<open>
  Bytes of a file are 8-bit words. A JavaScript string is its sequence of UTF-16 code
  units, which is what \<^verbatim>\<open>charCodeAt\<close>, \<^verbatim>\<open>startsWith\<close>, \<^verbatim>\<open>split\<close> and \<^verbatim>\<open>===\<close> see.
  \<open>js\<close> writes an ASCII literal as such a string.
\<close>

type_synonym byte = "8 word"
type_synonym jsstring = "16 word list"

definition js :: "string \<Rightarrow> jsstring" where
  "js s = map of_char s"

section \<open>fileTree: line counting\<close>

text \<open>
  \<^verbatim>\<open>countLines(filePath)\<close> listens to a read stream. The model takes the sequence of
  chunks that the stream delivers before \<^verbatim>\<open>end\<close>. The state of the closure is the triple
  \<^verbatim>\<open>(lineCount, hasData, lastByte)\<close>; \<^verbatim>\<open>lastByte\<close> is \<open>None\<close> for \<^verbatim>\<open>null\<close> and for the
  \<^verbatim>\<open>undefined\<close> that \<^verbatim>\<open>buffer[buffer.length - 1]\<close> reads from an empty buffer (both are
  \<^verbatim>\<open>!== 10\<close>). A stream that fails rejects the promise; the model is of the streams that
  end.
\<close>

type_synonym count_state = "nat \<times> bool \<times> byte option"

definition count_lf :: "byte list \<Rightarrow> nat \<Rightarrow> nat" where
  "count_lf buffer n = fold (\<lambda>b k. if b = 10 then k + 1 else k) buffer n"

definition on_data :: "byte list \<Rightarrow> count_state \<Rightarrow> count_state" where
  "on_data buffer st =
     (case st of (lineCount, hasData, lastByte) \<Rightarrow>
        (count_lf buffer lineCount, True,
         if buffer = [] then None else Some (last buffer)))"

definition on_end :: "count_state \<Rightarrow> nat" where
  "on_end st =
     (case st of (lineCount, hasData, lastByte) \<Rightarrow>
        if hasData \<and> lastByte \<noteq> Some 10 then lineCount + 1 else lineCount)"

definition countLines :: "byte list list \<Rightarrow> nat" where
  "countLines chunks = on_end (fold on_data chunks (0, False, None))"

text \<open>
  The number of lines of a content: its line feeds, and one more for a last line that
  has no line feed.
\<close>

definition line_count_of :: "byte list \<Rightarrow> nat" where
  "line_count_of content =
     count_list content 10 + (if content \<noteq> [] \<and> last content \<noteq> 10 then 1 else 0)"

section \<open>fileTree: tree nodes and blame segments\<close>

record BlameSegment =
  author :: jsstring
  lines :: nat

datatype node_type = File | Folder

text \<open>
  \<^verbatim>\<open>FileNode\<close>: the optional fields are options, \<open>None\<close> for an absent field (or
  \<^verbatim>\<open>undefined\<close>). The field \<^verbatim>\<open>type\<close> is written \<open>ntype\<close>.
\<close>

datatype FileNode = FileNode
  (name: jsstring)
  (path: jsstring)
  (ntype: node_type)
  (isText: "bool option")
  (lineCount: "nat option")
  (blameSegments: "BlameSegment list option")
  (children: "FileNode list option")

subsection \<open>String operations of the host language\<close>

text \<open>\<^verbatim>\<open>s.split(sep)\<close> for a one-character separator: \<open>n\<close> separators give \<open>n + 1\<close> pieces.\<close>

fun split_on :: "'a \<Rightarrow> 'a list \<Rightarrow> 'a list list" where
  "split_on sep [] = [[]]"
| "split_on sep (c # cs) =
     (if c = sep then [] # split_on sep cs
      else (case split_on sep cs of
              [] \<Rightarrow> [[c]]
            | p # ps \<Rightarrow> (c # p) # ps))"

definition startsWith :: "'a list \<Rightarrow> 'a list \<Rightarrow> bool" where
  "startsWith s p = (take (length p) s = p)"

text \<open>The white space and line terminators that \<^verbatim>\<open>trim\<close> removes.\<close>

definition is_js_space :: "16 word \<Rightarrow> bool" where
  "is_js_space c =
     (c \<in> set [0x9, 0xA, 0xB, 0xC, 0xD, 0x20, 0xA0, 0x1680, 0x2028, 0x2029, 0x202F,
                0x205F, 0x3000, 0xFEFF]
      \<or> (0x2000 \<le> c \<and> c \<le> 0x200A))"

definition trim :: "jsstring \<Rightarrow> jsstring" where
  "trim s = rev (dropWhile is_js_space (rev (dropWhile is_js_space s)))"

subsection \<open>getBlameSegments\<close>

text \<open>
  The first loop of \<^verbatim>\<open>getBlameSegments\<close>: one step per line of the output, on the
  state \<^verbatim>\<open>(authors, currentAuthor)\<close>.
\<close>

definition parse_step :: "jsstring \<Rightarrow> jsstring list \<times> jsstring \<Rightarrow> jsstring list \<times> jsstring" where
  "parse_step line st =
     (case st of (authors, currentAuthor) \<Rightarrow>
        if startsWith line (js ''author '') then
          (authors,
           let a = trim (drop (length (js ''author '')) line)
           in if a = [] then js ''Unknown'' else a)
        else if startsWith line (js [CHR 0x09]) then
          (authors @ [if currentAuthor = [] then js ''Unknown'' else currentAuthor],
           currentAuthor)
        else (authors, currentAuthor))"

definition parse_authors :: "jsstring \<Rightarrow> jsstring list" where
  "parse_authors stdout = fst (fold parse_step (split_on 0xA stdout) ([], []))"

text \<open>The lines for which the first loop pushes an author: those behind a tab.\<close>

definition is_content_line :: "jsstring \<Rightarrow> bool" where
  "is_content_line l \<longleftrightarrow> \<not> startsWith l (js ''author '') \<and> startsWith l (js [CHR 0x09])"

text \<open>The tab-prefixed lines of the output of the blame query.\<close>

definition content_lines :: "jsstring \<Rightarrow> jsstring list" where
  "content_lines stdout = filter (\<lambda>l. startsWith l (js [CHR 0x09])) (split_on 0xA stdout)"

text \<open>
  The second loop, from \<^verbatim>\<open>i = 1\<close>: the remaining authors, then \<^verbatim>\<open>last\<close>, \<^verbatim>\<open>count\<close> and
  the segments pushed so far; the final push is the base case.
\<close>

fun compress_loop ::
  "jsstring list \<Rightarrow> jsstring \<Rightarrow> nat \<Rightarrow> BlameSegment list \<Rightarrow> BlameSegment list" where
  "compress_loop [] last_author count segments =
     segments @ [\<lparr>author = last_author, lines = count\<rparr>]"
| "compress_loop (a # rest) last_author count segments =
     (if a = last_author then compress_loop rest last_author (count + 1) segments
      else compress_loop rest a 1 (segments @ [\<lparr>author = last_author, lines = count\<rparr>]))"

text \<open>From the author list on: \<^verbatim>\<open>null\<close> for no author, the segments otherwise.\<close>

definition segments_of_authors :: "jsstring list \<Rightarrow> BlameSegment list option" where
  "segments_of_authors authors =
     (case authors of
        [] \<Rightarrow> None
      | a # rest \<Rightarrow> Some (compress_loop rest a 1 []))"

text \<open>
  The git process either fails (the promise of \<^verbatim>\<open>execFileAsync\<close> rejects: untracked
  file, output over the buffer limit, no git) or gives its standard output.
\<close>

datatype exec_error = ExecFailed

definition getBlameSegments :: "exec_error + jsstring \<Rightarrow> BlameSegment list option" where
  "getBlameSegments run =
     (case run of
        Inl e \<Rightarrow> None
      | Inr stdout \<Rightarrow> segments_of_authors (parse_authors stdout))"

text \<open>The lines a segment list stands for, one author per line.\<close>

definition expand_segments :: "BlameSegment list \<Rightarrow> jsstring list" where
  "expand_segments segments = concat (map (\<lambda>s. replicate (lines s) (author s)) segments)"

text \<open>
  Run-length encoding in the words of the specification: the first author with the number
  of lines at the front of the list that carry it, then the encoding of the lines behind
  them.
\<close>

function run_lengths :: "jsstring list \<Rightarrow> BlameSegment list" where
  "run_lengths [] = []"
| "run_lengths (a # rest) =
     \<lparr>author = a, lines = Suc (length (takeWhile (\<lambda>b. b = a) rest))\<rparr>
       # run_lengths (dropWhile (\<lambda>b. b = a) rest)"
  by pat_completeness auto

termination
  by (relation "measure length") (auto simp: length_dropWhile_le less_Suc_eq_le)

section \<open>fileTree: text files and the ignore stack\<close>

subsection \<open>isTextFile\<close>

text \<open>
  The argument is the content of the file, \<open>None\<close> when opening or reading it throws.
  The read fills at most 8192 bytes from position 0 (for a regular file: its first 8192
  bytes, or all of them); the loop looks for a zero byte among the bytes read.
\<close>

definition isTextFile :: "byte list option \<Rightarrow> bool" where
  "isTextFile file =
     (case file of
        None \<Rightarrow> False
      | Some content \<Rightarrow> list_all (\<lambda>b. b \<noteq> 0) (take 8192 content))"

text \<open>
  A read stream delivers the content in chunks of its \<^verbatim>\<open>highWaterMark\<close> (64 KiB by
  default), the last one shorter.
\<close>

function chunks_of :: "nat \<Rightarrow> 'a list \<Rightarrow> 'a list list" where
  "chunks_of n xs =
     (if n = 0 \<or> xs = [] then [] else take n xs # chunks_of n (drop n xs))"
  by pat_completeness auto
termination
  by (relation "measure (\<lambda>(n, xs). length xs)") auto

declare chunks_of.simps [simp del]

definition stream_chunks :: "byte list \<Rightarrow> byte list list" where
  "stream_chunks content = chunks_of 65536 content"

subsection \<open>Paths\<close>

text \<open>
  An absolute, normalised path is the list of its components. \<open>path_string\<close> is the
  string the program holds; \<open>path_relative\<close> is \<^verbatim>\<open>path.relative(from, to)\<close> on such
  paths: the components after the common prefix, behind one \<^verbatim>\<open>..\<close> for each component
  left of \<open>from\<close>, joined by the separator.
\<close>

type_synonym fpath = "jsstring list"

fun join_with :: "jsstring \<Rightarrow> jsstring list \<Rightarrow> jsstring" where
  "join_with sep [] = []"
| "join_with sep [p] = p"
| "join_with sep (p # q # ps) = p @ sep @ join_with sep (q # ps)"

definition path_string :: "fpath \<Rightarrow> jsstring" where
  "path_string p = js ''/'' @ join_with (js ''/'') p"

definition basename :: "fpath \<Rightarrow> jsstring" where
  "basename p = (if p = [] then [] else last p)"

fun relative_parts :: "fpath \<Rightarrow> fpath \<Rightarrow> fpath" where
  "relative_parts [] to = to"
| "relative_parts (f # fs) [] = replicate (length (f # fs)) (js ''..'')"
| "relative_parts (f # fs) (t # ts) =
     (if f = t then relative_parts fs ts
      else replicate (length (f # fs)) (js ''..'') @ (t # ts))"

definition path_relative :: "fpath \<Rightarrow> fpath \<Rightarrow> jsstring" where
  "path_relative from to = join_with (js ''/'') (relative_parts from to)"

definition endsWith :: "'a list \<Rightarrow> 'a list \<Rightarrow> bool" where
  "endsWith s p = (length p \<le> length s \<and> drop (length s - length p) s = p)"

subsection \<open>shouldIgnorePath\<close>

text \<open>
  The result of \<^verbatim>\<open>matcher.test(path)\<close>. An \<^verbatim>\<open>Ignore\<close> object of the \<^verbatim>\<open>ignore\<close> package
  is represented by its \<^verbatim>\<open>test\<close> function.
\<close>

record TestResult =
  ignored :: bool
  unignored :: bool

record IgnoreEntry =
  base :: fpath
  matcher :: "jsstring \<Rightarrow> TestResult"

text \<open>One iteration of the loop over the stack, on the variable \<^verbatim>\<open>ignored\<close>.\<close>

definition ignore_step :: "fpath \<Rightarrow> bool \<Rightarrow> IgnoreEntry \<Rightarrow> bool \<Rightarrow> bool" where
  "ignore_step absPath isDir entry ign =
     (let relativePath = path_relative (base entry) absPath in
      if startsWith relativePath (js ''..'') then ign
      else
        let relativePath = map (\<lambda>c. if c = 0x5C then 0x2F else c) relativePath;
            relativePath = (if isDir \<and> \<not> endsWith relativePath (js ''/'')
                            then relativePath @ js ''/'' else relativePath);
            result = matcher entry relativePath;
            ign = (if ignored result then True else ign);
            ign = (if unignored result then False else ign)
        in ign)"

definition shouldIgnorePath :: "fpath \<Rightarrow> bool \<Rightarrow> IgnoreEntry list \<Rightarrow> bool" where
  "shouldIgnorePath absPath isDir stack = fold (ignore_step absPath isDir) stack False"

section \<open>fileTree: building the tree\<close>

text \<open>
  The file system as the walk sees it. \<open>Unreachable\<close>: \<^verbatim>\<open>stat\<close> throws (broken link, no
  permission). A regular file has its content, \<open>None\<close> when it cannot be opened. A
  directory has its entries by name, \<open>None\<close> when \<^verbatim>\<open>readdir\<close> throws. \<^verbatim>\<open>stat\<close>, \<^verbatim>\<open>open\<close> and
  \<^verbatim>\<open>createReadStream\<close> follow symbolic links: a link to a file is a regular file with the
  content of its target.
\<close>

datatype fs_object =
    Unreachable
  | RegularFile "byte list option"
  | Directory "(jsstring \<times> fs_object) list option"

text \<open>
  What the program takes from its platform: the \<^verbatim>\<open>ignore\<close> package (the matcher that
  results from adding the given rule texts in order), the decoding of a file as UTF-8,
  and the collation of \<^verbatim>\<open>localeCompare\<close>.
\<close>

record host =
  ignore_rules :: "jsstring list \<Rightarrow> jsstring \<Rightarrow> TestResult"
  utf8_decode :: "byte list \<Rightarrow> jsstring"
  localeCompare :: "jsstring \<Rightarrow> jsstring \<Rightarrow> real"

text \<open>\<^verbatim>\<open>readFile\<close> of the entry \<open>n\<close> of a directory, \<open>None\<close> when it throws.\<close>

definition readFile :: "fs_object \<Rightarrow> jsstring \<Rightarrow> byte list option" where
  "readFile dir n =
     (case dir of
        Directory (Some es) \<Rightarrow>
          (case map_of es n of
             Some (RegularFile (Some content)) \<Rightarrow> Some content
           | _ \<Rightarrow> None)
      | _ \<Rightarrow> None)"

definition isGitRepository :: "fs_object \<Rightarrow> bool" where
  "isGitRepository rootDir =
     (case rootDir of
        Directory (Some es) \<Rightarrow>
          (case map_of es (js ''.git'') of
             Some (RegularFile f) \<Rightarrow> True
           | Some (Directory d) \<Rightarrow> True
           | _ \<Rightarrow> False)
      | _ \<Rightarrow> False)"

definition default_rules :: "jsstring list" where
  "default_rules =
     [js ''.git'', js ''node_modules'', js ''.vscode'', js ''pnpm-lock.yaml'',
      js ''yarn.lock'', js ''package-lock.json'']"

definition loadRootIgnore :: "host \<Rightarrow> fs_object \<Rightarrow> fpath \<Rightarrow> IgnoreEntry" where
  "loadRootIgnore h rootDir rootPath =
     \<lparr>base = rootPath,
      matcher = ignore_rules h
        (default_rules @
         (case readFile rootDir (js ''.gitignore'') of
            Some content \<Rightarrow> [utf8_decode h content]
          | None \<Rightarrow> []))\<rparr>"

definition loadLocalIgnore :: "host \<Rightarrow> fs_object \<Rightarrow> (jsstring \<Rightarrow> TestResult) option" where
  "loadLocalIgnore h dir =
     (case readFile dir (js ''.gitignore'') of
        Some content \<Rightarrow> Some (ignore_rules h [utf8_decode h content])
      | None \<Rightarrow> None)"

text \<open>
  \<^verbatim>\<open>Array.prototype.sort\<close> is stable; for a consistent comparison function its result is
  that of this insertion sort, which puts each element before the first one it compares
  below.
\<close>

fun insert_by :: "('a \<Rightarrow> 'a \<Rightarrow> real) \<Rightarrow> 'a \<Rightarrow> 'a list \<Rightarrow> 'a list" where
  "insert_by cmp v [] = [v]"
| "insert_by cmp v (w # ws) =
     (if cmp v w < 0 then v # w # ws else w # insert_by cmp v ws)"

definition sort_by :: "('a \<Rightarrow> 'a \<Rightarrow> real) \<Rightarrow> 'a list \<Rightarrow> 'a list" where
  "sort_by cmp vs = foldl (\<lambda>acc v. insert_by cmp v acc) [] vs"

definition node_compare :: "host \<Rightarrow> FileNode \<Rightarrow> FileNode \<Rightarrow> real" where
  "node_compare h a b =
     (if ntype a \<noteq> ntype b then (if ntype a = Folder then - 1 else 1)
      else localeCompare h (name a) (name b))"

text \<open>The file branch of \<^verbatim>\<open>buildNode\<close>, once the path is known not to be ignored.\<close>

definition file_node :: "fpath \<Rightarrow> byte list option \<Rightarrow> FileNode" where
  "file_node currentPath file =
     (let textFile = isTextFile file;
          lc = (case file of
                  Some content \<Rightarrow>
                    if textFile then Some (countLines (stream_chunks content)) else None
                | None \<Rightarrow> None)
      in FileNode (basename currentPath) (path_string currentPath) File
           (Some textFile) lc None None)"

text \<open>
  \<^verbatim>\<open>buildNode(currentPath, relativePath, ignoreStack)\<close>, with the object found at
  \<^verbatim>\<open>currentPath\<close>; \<open>buildEntries\<close> is its loop over the entries of a directory. The
  relative path is empty at the root only.
\<close>

fun buildNode ::
    "host \<Rightarrow> fs_object \<Rightarrow> fpath \<Rightarrow> fpath \<Rightarrow> IgnoreEntry list \<Rightarrow> FileNode option"
  and buildEntries ::
    "host \<Rightarrow> (jsstring \<times> fs_object) list \<Rightarrow> fpath \<Rightarrow> fpath \<Rightarrow> IgnoreEntry list \<Rightarrow> FileNode list"
where
  "buildNode h Unreachable currentPath relativePath ignoreStack = None"
| "buildNode h (Directory None) currentPath relativePath ignoreStack = None"
| "buildNode h (Directory (Some entries)) currentPath relativePath ignoreStack =
     (if relativePath \<noteq> [] \<and> shouldIgnorePath currentPath True ignoreStack then None
      else
        let nextStack =
              (case loadLocalIgnore h (Directory (Some entries)) of
                 Some localIgnore \<Rightarrow>
                   ignoreStack @ [\<lparr>base = currentPath, matcher = localIgnore\<rparr>]
               | None \<Rightarrow> ignoreStack);
            cs = sort_by (node_compare h)
                   (buildEntries h entries currentPath relativePath nextStack)
        in Some (FileNode (basename currentPath) (path_string currentPath) Folder
                   None None None (if cs \<noteq> [] then Some cs else None)))"
| "buildNode h (RegularFile file) currentPath relativePath ignoreStack =
     (if shouldIgnorePath currentPath False ignoreStack then None
      else Some (file_node currentPath file))"
| "buildEntries h [] currentPath relativePath nextStack = []"
| "buildEntries h ((entry, obj) # rest) currentPath relativePath nextStack =
     (case buildNode h obj (currentPath @ [entry]) (relativePath @ [entry]) nextStack of
        None \<Rightarrow> buildEntries h rest currentPath relativePath nextStack
      | Some childNode \<Rightarrow>
          childNode # buildEntries h rest currentPath relativePath nextStack)"

definition buildFileTree :: "host \<Rightarrow> fs_object \<Rightarrow> fpath \<Rightarrow> jsstring \<Rightarrow> FileNode option" where
  "buildFileTree h rootDir rootPath workspaceName =
     (if \<not> isGitRepository rootDir then None
      else
        (case buildNode h rootDir rootPath [] [loadRootIgnore h rootDir rootPath] of
           None \<Rightarrow> None
         | Some (FileNode n p t it lc bs cs) \<Rightarrow>
             Some (FileNode workspaceName p t it lc bs cs)))"

section \<open>fileTree: attribution\<close>

text \<open>
  The git process as a function of the path it is asked about: the repository does not
  change during one run.
\<close>

type_synonym git_blame = "jsstring \<Rightarrow> exec_error + jsstring"

definition set_blameSegments :: "BlameSegment list \<Rightarrow> FileNode \<Rightarrow> FileNode" where
  "set_blameSegments segments file =
     (case file of FileNode n p t it lc bs cs \<Rightarrow> FileNode n p t it lc (Some segments) cs)"

text \<open>The body of the loop of \<^verbatim>\<open>addBlameInfo\<close>, on the node object \<^verbatim>\<open>file\<close>.\<close>

definition blame_file :: "git_blame \<Rightarrow> FileNode \<Rightarrow> FileNode" where
  "blame_file git file =
     (if isText file \<noteq> Some True then file
      else
        (case getBlameSegments (git (path file)) of
           None \<Rightarrow> file
         | Some segments \<Rightarrow>
             if length segments > 0 then set_blameSegments segments file else file))"

text \<open>
  Node objects are mutated in place, so a reference to a node is its position in the
  tree: the indices of the children on the way from the root.
\<close>

type_synonym pos = "nat list"

fun node_at :: "FileNode \<Rightarrow> pos \<Rightarrow> FileNode option"
  and child_at :: "FileNode list \<Rightarrow> nat \<Rightarrow> pos \<Rightarrow> FileNode option"
where
  "node_at n [] = Some n"
| "node_at (FileNode nm p t it lc bs None) (i # is) = None"
| "node_at (FileNode nm p t it lc bs (Some cs)) (i # is) = child_at cs i is"
| "child_at [] i is = None"
| "child_at (c # cs) 0 is = node_at c is"
| "child_at (c # cs) (Suc i) is = child_at cs i is"

fun update_at :: "(FileNode \<Rightarrow> FileNode) \<Rightarrow> pos \<Rightarrow> FileNode \<Rightarrow> FileNode"
  and update_child :: "(FileNode \<Rightarrow> FileNode) \<Rightarrow> nat \<Rightarrow> pos \<Rightarrow> FileNode list \<Rightarrow> FileNode list"
where
  "update_at f [] n = f n"
| "update_at f (i # is) (FileNode nm p t it lc bs None) = FileNode nm p t it lc bs None"
| "update_at f (i # is) (FileNode nm p t it lc bs (Some cs)) =
     FileNode nm p t it lc bs (Some (update_child f i is cs))"
| "update_child f i is [] = []"
| "update_child f 0 is (c # cs) = update_at f is c # cs"
| "update_child f (Suc i) is (c # cs) = c # update_child f i is cs"

fun node_size :: "FileNode \<Rightarrow> nat" where
  "node_size (FileNode nm p t it lc bs cs) =
     Suc (case cs of None \<Rightarrow> 0 | Some l \<Rightarrow> sum_list (map node_size l))"

definition indexed_children :: "pos \<Rightarrow> FileNode list \<Rightarrow> (pos \<times> FileNode) list" where
  "indexed_children p cs = map (\<lambda>i. (p @ [i], cs ! i)) [0..<length cs]"

text \<open>
  The loop of \<^verbatim>\<open>collectFileNodes\<close>. The stack is written with its top first, so pushing
  the children in order puts the last child on top.
\<close>

function collect_loop ::
  "(pos \<times> FileNode) list \<Rightarrow> (pos \<times> FileNode) list \<Rightarrow> (pos \<times> FileNode) list" where
  "collect_loop [] files = files"
| "collect_loop ((p, node) # stack) files =
     (if ntype node = File then collect_loop stack (files @ [(p, node)])
      else
        (case children node of
           Some cs \<Rightarrow> collect_loop (rev (indexed_children p cs) @ stack) files
         | None \<Rightarrow> collect_loop stack files))"
  by pat_completeness auto
termination
proof (relation "measure (\<lambda>(stack, files). sum_list (map (node_size \<circ> snd) stack))")
  show "wf (measure (\<lambda>(stack, files). sum_list (map (node_size \<circ> snd) stack)))"
    by simp
next
  fix p node stack and files :: "(pos \<times> FileNode) list"
  show "((stack, files @ [(p, node)]), (p, node) # stack, files)
          \<in> measure (\<lambda>(stack, files). sum_list (map (node_size \<circ> snd) stack))"
    by (cases node) simp
next
  fix p node stack cs and files :: "(pos \<times> FileNode) list"
  assume "children node = Some cs"
  moreover have "map (node_size \<circ> snd) (indexed_children p cs) = map node_size cs"
    by (rule nth_equalityI) (simp_all add: indexed_children_def)
  ultimately show "((rev (indexed_children p cs) @ stack, files), (p, node) # stack, files)
          \<in> measure (\<lambda>(stack, files). sum_list (map (node_size \<circ> snd) stack))"
    by (cases node) (simp add: rev_map [symmetric] sum_list_rev del: map_map)
next
  fix p node stack and files :: "(pos \<times> FileNode) list"
  show "((stack, files), (p, node) # stack, files)
          \<in> measure (\<lambda>(stack, files). sum_list (map (node_size \<circ> snd) stack))"
    by (cases node) simp
qed

declare collect_loop.simps [simp del]

definition collectFileNodes :: "FileNode \<Rightarrow> (pos \<times> FileNode) list" where
  "collectFileNodes rootNode = collect_loop [([], rootNode)] []"

definition addBlameInfo :: "git_blame \<Rightarrow> FileNode \<Rightarrow> FileNode" where
  "addBlameInfo git rootNode =
     fold (\<lambda>(p, file) tree. update_at (blame_file git) p tree)
       (collectFileNodes rootNode) rootNode"

text \<open>
  The frame of attribution in the words of the specification: a file node gets the loop
  body, a folder keeps its fields and has its children treated in place, nothing else
  changes. \<open>forget_blame\<close> erases the segments everywhere, which leaves the shape of the
  tree and every other field.
\<close>

fun annotate :: "git_blame \<Rightarrow> FileNode \<Rightarrow> FileNode" where
  "annotate git (FileNode nm p t it lc bs cs) =
     (if t = File then blame_file git (FileNode nm p t it lc bs cs)
      else FileNode nm p t it lc bs (map_option (map (annotate git)) cs))"

fun forget_blame :: "FileNode \<Rightarrow> FileNode" where
  "forget_blame (FileNode nm p t it lc bs cs) =
     FileNode nm p t it lc None (map_option (map forget_blame) cs)"

subsection \<open>The output of the blame query\<close>

text \<open>
  Modelled from the spec: the version-control backend is not part of the repository. Its
  line-level query gives one record per physical line of what it blames at the path, in
  order: the tracked file, or for a tracked symbolic link the text of the link. In the
  porcelain format a record is some header lines, none starting with a tab, and then the
  line itself behind a tab. Every line of the output ends with a line feed.
\<close>

record blame_record =
  header :: "jsstring list"
  line_text :: jsstring

definition wf_blame_record :: "blame_record \<Rightarrow> bool" where
  "wf_blame_record r =
     (list_all (\<lambda>h. 0xA \<notin> set h \<and> \<not> startsWith h (js [CHR 0x09])) (header r)
      \<and> 0xA \<notin> set (line_text r))"

definition porcelain :: "blame_record list \<Rightarrow> jsstring" where
  "porcelain rs =
     concat (map (\<lambda>r. concat (map (\<lambda>h. h @ [0xA]) (header r))
                        @ js [CHR 0x09] @ line_text r @ [0xA]) rs)"

text \<open>
  The physical lines of a file: the pieces between line feeds, without the empty piece
  behind a final line feed.
\<close>

definition physical_lines :: "byte list \<Rightarrow> byte list list" where
  "physical_lines content =
     (let ps = split_on 10 content in if last ps = [] then butlast ps else ps)"

text \<open>
  A tracked symbolic link \<^verbatim>\<open>link.txt\<close> to a text file of three lines. The walk reads the
  target through the link. The blame query blames the link itself, whose text is the path
  of its target: one record.
\<close>

definition link_target_content :: "byte list" where
  "link_target_content = [97, 10, 98, 10, 99, 10]"

definition link_records :: "blame_record list" where
  "link_records =
     [\<lparr>header = [js ''0f3a 1 1 1'', js ''author X'', js ''author-mail <x@y>'',
                 js ''filename link.txt''],
       line_text = js ''target.txt''\<rparr>]"

definition link_blame :: git_blame where
  "link_blame p = Inr (porcelain link_records)"

section \<open>The ignore decision in the words of the specification\<close>

text \<open>
  An entry contains the path when its base is a prefix of it. A containing entry asserts
  what its matcher says about the relative path (un-ignored over ignored, as the code
  assigns in that order), any other entry asserts nothing; the last assertion decides, and
  without one the path is not ignored.
\<close>

definition contains_path :: "fpath \<Rightarrow> fpath \<Rightarrow> bool" where
  "contains_path b p = (take (length b) p = b)"

definition relative_for_test :: "fpath \<Rightarrow> bool \<Rightarrow> fpath \<Rightarrow> jsstring" where
  "relative_for_test b isDir p =
     (let r = map (\<lambda>c. if c = 0x5C then 0x2F else c)
                (join_with (js ''/'') (drop (length b) p))
      in if isDir \<and> \<not> endsWith r (js ''/'') then r @ js ''/'' else r)"

definition assertion_of :: "fpath \<Rightarrow> bool \<Rightarrow> IgnoreEntry \<Rightarrow> bool option" where
  "assertion_of p isDir entry =
     (if \<not> contains_path (base entry) p then None
      else
        let result = matcher entry (relative_for_test (base entry) isDir p)
        in if unignored result then Some False
           else if ignored result then Some True
           else None)"

definition ignore_decision :: "fpath \<Rightarrow> bool \<Rightarrow> IgnoreEntry list \<Rightarrow> bool" where
  "ignore_decision p isDir stack =
     (case filter (\<lambda>a. a \<noteq> None) (map (assertion_of p isDir) stack) of
        [] \<Rightarrow> False
      | a # as \<Rightarrow> the (last (a # as)))"

text \<open>A file name: not empty, and here not beginning with two dots.\<close>

definition plain_name :: "jsstring \<Rightarrow> bool" where
  "plain_name c = (c \<noteq> [] \<and> \<not> startsWith c (js ''..''))"

section \<open>A host for the examples\<close>

text \<open>
  For the examples: rule files that list plain names, one per line, a name behind \<^verbatim>\<open>!\<close>
  being un-ignored. Such a rule applies to every path whose last component is the name.
  Files are ASCII, names are compared by their code units.
\<close>

definition last_component :: "jsstring \<Rightarrow> jsstring" where
  "last_component p =
     last (split_on 0x2F (if endsWith p (js ''/'') then butlast p else p))"

definition name_rules :: "jsstring list \<Rightarrow> jsstring \<Rightarrow> TestResult" where
  "name_rules texts p =
     (let rules = concat (map (split_on 0xA) texts)
      in \<lparr>ignored = (last_component p \<in> set rules
                      \<and> js ''!'' @ last_component p \<notin> set rules),
          unignored = (js ''!'' @ last_component p \<in> set rules)\<rparr>)"

definition example_host :: host where
  "example_host =
     \<lparr>ignore_rules = name_rules,
      utf8_decode = map ucast,
      localeCompare = (\<lambda>a b. if a = b then 0 else if lexordp (<) a b then - 1 else 1)\<rparr>"

section \<open>Author colours\<close>

text \<open>
  \<^verbatim>\<open>hash = (hash * 31 + author.charCodeAt(i)) | 0\<close>: the sum is exact in double precision
  (it stays below \<open>2 ^ 53\<close>) and \<^verbatim>\<open>| 0\<close> wraps it to a signed 32-bit integer, which is
  the arithmetic of 32-bit words read by \<open>sint\<close>.
\<close>

definition hash_step :: "16 word \<Rightarrow> 32 word \<Rightarrow> 32 word" where
  "hash_step c hash = hash * 31 + ucast c"

definition author_hash :: "jsstring \<Rightarrow> 32 word" where
  "author_hash a = fold hash_step a 0"

definition hue_of :: "jsstring \<Rightarrow> nat" where
  "hue_of a = nat (\<bar>sint (author_hash a)\<bar> mod 360)"

text \<open>The same hash on unbounded integers, wrapped at every step.\<close>

definition wrap32 :: "int \<Rightarrow> int" where
  "wrap32 z = (z + 2 ^ 31) mod 2 ^ 32 - 2 ^ 31"

definition int_hash :: "jsstring \<Rightarrow> int" where
  "int_hash a = fold (\<lambda>c h. wrap32 (h * 31 + uint c)) a 0"

text \<open>A natural number in decimal, as string concatenation prints it.\<close>

fun decimal :: "nat \<Rightarrow> jsstring" where
  "decimal n =
     (if n < 10 then [of_nat (48 + n)]
      else decimal (n div 10) @ [of_nat (48 + n mod 10)])"

declare decimal.simps [simp del]

text \<open>
  Reading a property of a plain object. \<^verbatim>\<open>authorColors\<close> and \<^verbatim>\<open>colors\<close> are plain objects
  with strings as values: \<^verbatim>\<open>obj[k]\<close> is the object's own property \<open>k\<close> when it has one,
  else the member \<open>k\<close> of \<^verbatim>\<open>Object.prototype\<close> when there is one (a function, or the
  prototype itself for \<^verbatim>\<open>__proto__\<close>), else \<^verbatim>\<open>undefined\<close>. An object is given by its own
  properties.
\<close>

datatype js_value = Str jsstring | Inherited jsstring

definition object_prototype_names :: "jsstring list" where
  "object_prototype_names =
     map js [''constructor'', ''__defineGetter__'', ''__defineSetter__'', ''hasOwnProperty'',
             ''__lookupGetter__'', ''__lookupSetter__'', ''isPrototypeOf'',
             ''propertyIsEnumerable'', ''toString'', ''valueOf'', ''__proto__'',
             ''toLocaleString'']"

definition get_property :: "(jsstring \<rightharpoonup> jsstring) \<Rightarrow> jsstring \<Rightarrow> js_value option" where
  "get_property obj k =
     (case obj k of
        Some v \<Rightarrow> Some (Str v)
      | None \<Rightarrow> if k \<in> set object_prototype_names then Some (Inherited k) else None)"

text \<open>A value in a condition: the empty string counts as false, a function or object as true.\<close>

definition truthy :: "js_value \<Rightarrow> bool" where
  "truthy v = (case v of Str s \<Rightarrow> s \<noteq> [] | Inherited k \<Rightarrow> True)"

text \<open>
  The web view declares \<^verbatim>\<open>const authorColors = ${colorJson}\<close>, an object literal written
  from the map of the extension. In an object literal the entry \<^verbatim>\<open>"__proto__": v\<close> with a
  string \<open>v\<close> creates no property.
\<close>

definition object_literal :: "(jsstring \<rightharpoonup> jsstring) \<Rightarrow> (jsstring \<rightharpoonup> jsstring)" where
  "object_literal props = props(js ''__proto__'' := None)"

definition generated_color :: "jsstring \<Rightarrow> jsstring" where
  "generated_color a = js ''hsl('' @ decimal (hue_of a) @ js '', 55%, 45%)''"

text \<open>
  \<^verbatim>\<open>colorForAuthor\<close> of the web view, for the map \<^verbatim>\<open>authorColors\<close> handed to
  \<^verbatim>\<open>getWebviewContent\<close>: the value of \<^verbatim>\<open>authorColors[author]\<close> when it is truthy, else the
  colour generated from the hash. The parameter \<^verbatim>\<open>author\<close> is written \<open>a\<close>.
\<close>

definition colorForAuthor :: "(jsstring \<rightharpoonup> jsstring) \<Rightarrow> jsstring \<Rightarrow> js_value" where
  "colorForAuthor authorColors a =
     (case get_property (object_literal authorColors) a of
        Some v \<Rightarrow> if truthy v then v else Str (generated_color a)
      | None \<Rightarrow> Str (generated_color a))"

text \<open>
  \<^verbatim>\<open>hslToHex\<close> and \<^verbatim>\<open>colorForAuthorHex\<close> of the extension, on real numbers.
  \<^verbatim>\<open>Math.round\<close> is \<open>\<lfloor>v + 1/2\<rfloor>\<close>, \<^verbatim>\<open>%\<close> on non-negative numbers is the remainder.
\<close>

definition hex_digit :: "nat \<Rightarrow> 16 word" where
  "hex_digit d = (if d < 10 then of_nat (48 + d) else of_nat (87 + d))"

fun to_hex :: "nat \<Rightarrow> jsstring" where
  "to_hex n = (if n < 16 then [hex_digit n] else to_hex (n div 16) @ [hex_digit (n mod 16)])"

declare to_hex.simps [simp del]

definition padStart2 :: "jsstring \<Rightarrow> jsstring" where
  "padStart2 s = replicate (2 - length s) 0x30 @ s"

definition fmod2 :: "real \<Rightarrow> real" where
  "fmod2 v = v - 2 * of_int \<lfloor>v / 2\<rfloor>"

definition hslToHex :: "real \<Rightarrow> real \<Rightarrow> real \<Rightarrow> jsstring" where
  "hslToHex h s l =
     (let sNorm = s / 100;
          lNorm = l / 100;
          c = (1 - \<bar>2 * lNorm - 1\<bar>) * sNorm;
          x' = c * (1 - \<bar>fmod2 (h / 60) - 1\<bar>);
          m = lNorm - c / 2;
          rgb = (if h < 60 then (c, x', 0)
                 else if h < 120 then (x', c, 0)
                 else if h < 180 then (0, c, x')
                 else if h < 240 then (0, x', c)
                 else if h < 300 then (x', 0, c)
                 else (c, 0, x'));
          toHex = (\<lambda>v. padStart2 (to_hex (nat \<lfloor>(v + m) * 255 + 1 / 2\<rfloor>)))
      in case rgb of (r, g, b) \<Rightarrow> js ''#'' @ toHex r @ toHex g @ toHex b)"

definition colorForAuthorHex :: "jsstring \<Rightarrow> jsstring" where
  "colorForAuthorHex a = hslToHex (real (hue_of a)) 55 45"

text \<open>
  \<^verbatim>\<open>ensureAuthorColors\<close> of the extension, on the stored map \<^verbatim>\<open>colors\<close>: an author gets the
  generated colour when \<^verbatim>\<open>!colors[author]\<close> holds. The result is the map handed to
  \<^verbatim>\<open>getWebviewContent\<close>; writing it back to the global state is left out.
\<close>

definition ensure_step :: "jsstring \<Rightarrow> (jsstring \<rightharpoonup> jsstring) \<Rightarrow> (jsstring \<rightharpoonup> jsstring)" where
  "ensure_step a colors =
     (case get_property colors a of
        Some v \<Rightarrow> if truthy v then colors else colors(a \<mapsto> colorForAuthorHex a)
      | None \<Rightarrow> colors(a \<mapsto> colorForAuthorHex a))"

definition ensureAuthorColors ::
  "(jsstring \<rightharpoonup> jsstring) \<Rightarrow> jsstring list \<Rightarrow> (jsstring \<rightharpoonup> jsstring)" where
  "ensureAuthorColors colors authors = fold ensure_step authors colors"

section \<open>The cache and the command\<close>

text \<open>
  The extension context, as far as the cache uses it, and the storage directory: whether
  it exists, whether it can be created, and its files by path. Reading a file of a
  missing directory throws, and so does writing one.
\<close>

record ExtensionContext =
  storageUri :: "jsstring option"

record storage =
  dir_exists :: bool
  can_create :: bool
  cache_files :: "jsstring \<rightharpoonup> jsstring"

datatype js_error = StorageNotAvailable

record CacheManager =
  cm_storageUri :: jsstring

text \<open>
  The constructor throws without a storage uri; otherwise it starts \<^verbatim>\<open>ensureStorageDir\<close>,
  whose failure is only logged.
\<close>

definition ensureStorageDir :: "storage \<Rightarrow> storage" where
  "ensureStorageDir st =
     (if dir_exists st \<or> can_create st then st\<lparr>dir_exists := True\<rparr> else st)"

definition new_CacheManager :: "ExtensionContext \<Rightarrow> storage \<Rightarrow> js_error + CacheManager \<times> storage" where
  "new_CacheManager context st =
     (case storageUri context of
        None \<Rightarrow> Inl StorageNotAvailable
      | Some uri \<Rightarrow> Inr (\<lparr>cm_storageUri = uri\<rparr>, ensureStorageDir st))"

definition getCacheFilePath :: "CacheManager \<Rightarrow> jsstring \<Rightarrow> jsstring" where
  "getCacheFilePath cm hash = cm_storageUri cm @ js ''/blame_cache_'' @ hash @ js ''.json''"

text \<open>\<^verbatim>\<open>JSON.parse\<close> and \<^verbatim>\<open>JSON.stringify\<close> are taken from the platform.\<close>

record json =
  parse :: "jsstring \<Rightarrow> FileNode option"
  stringify :: "FileNode \<Rightarrow> jsstring"

definition getBlameCache :: "json \<Rightarrow> CacheManager \<Rightarrow> storage \<Rightarrow> jsstring \<Rightarrow> FileNode option" where
  "getBlameCache j cm st hash =
     (if \<not> dir_exists st then None
      else (case cache_files st (getCacheFilePath cm hash) of
              None \<Rightarrow> None
            | Some content \<Rightarrow> parse j content))"

definition saveBlameCache :: "json \<Rightarrow> CacheManager \<Rightarrow> storage \<Rightarrow> jsstring \<Rightarrow> FileNode \<Rightarrow> storage" where
  "saveBlameCache j cm st hash tree =
     (if \<not> dir_exists st then st
      else st\<lparr>cache_files := (cache_files st)(getCacheFilePath cm hash \<mapsto> stringify j tree)\<rparr>)"

text \<open>
  The command \<^verbatim>\<open>code-kingdom.showFileTree\<close> from the creation of the cache manager on.
  The repository is given by the commit hash (\<open>None\<close> when it cannot be read), the
  workspace folder and the blame query. The command ends by an exception that leaves it,
  by the error page or by showing a tree.
\<close>

record repository =
  commitHash :: "jsstring option"
  workspace :: fs_object
  workspacePath :: fpath
  workspaceName :: jsstring
  blame :: git_blame

datatype outcome = Thrown js_error | ErrorPage | Shown FileNode

definition showFileTree ::
  "host \<Rightarrow> json \<Rightarrow> ExtensionContext \<Rightarrow> repository \<Rightarrow> storage \<Rightarrow> outcome \<times> storage" where
  "showFileTree h j context repo st =
     (case new_CacheManager context st of
        Inl e \<Rightarrow> (Thrown e, st)
      | Inr (cacheManager, st1) \<Rightarrow>
          let cached = (case commitHash repo of
                          None \<Rightarrow> None
                        | Some hash \<Rightarrow> getBlameCache j cacheManager st1 hash)
          in case cached of
               Some fileTree \<Rightarrow> (Shown fileTree, st1)
             | None \<Rightarrow>
                 (case buildFileTree h (workspace repo) (workspacePath repo) (workspaceName repo) of
                    None \<Rightarrow> (ErrorPage, st1)
                  | Some built \<Rightarrow>
                      let fileTree = addBlameInfo (blame repo) built;
                          st2 = (case commitHash repo of
                                   None \<Rightarrow> st1
                                 | Some hash \<Rightarrow> saveBlameCache j cacheManager st1 hash fileTree)
                      in (Shown fileTree, st2)))"

text \<open>
  For the examples: a repository at commit \<^verbatim>\<open>abc\<close> with the one-line file \<^verbatim>\<open>a.txt\<close>, all
  lines by \<^verbatim>\<open>X\<close>, and a JSON codec that parses nothing.
\<close>

definition example_repo :: repository where
  "example_repo =
     \<lparr>commitHash = Some (js ''abc''),
      workspace = Directory (Some [(js ''.git'', Directory (Some [])),
                                   (js ''a.txt'', RegularFile (Some [97, 10]))]),
      workspacePath = [js ''repo''],
      workspaceName = js ''repo'',
      blame = (\<lambda>p. Inr (js ''author X'' @ [0xA, 0x9, 0x61, 0xA]))\<rparr>"

definition example_json :: json where
  "example_json = \<lparr>parse = (\<lambda>s. None), stringify = (\<lambda>t. [])\<rparr>"

definition example_tree :: FileNode where
  "example_tree =
     FileNode (js ''repo'') (js ''/repo'') Folder None None None
       (Some [FileNode (js ''a.txt'') (js ''/repo/a.txt'') File (Some True) (Some 1)
                (Some [\<lparr>author = js ''X'', lines = 1\<rparr>]) None])"

section \<open>webviewContent: packing rectangles\<close>

text \<open>
  Numbers are real numbers here; rounding of double precision is not modelled. A
  rectangle to pack has a width and a height; a free region and a placed rectangle also
  have a position, the fields \<^verbatim>\<open>x\<close> and \<^verbatim>\<open>y\<close>, written \<open>px\<close> and \<open>py\<close>. The result of
  a packing has the extent and the placed rectangles (the field \<^verbatim>\<open>children\<close>, written
  \<open>placed\<close>).
\<close>

record dims =
  width :: real
  height :: real

record rect = dims +
  px :: real
  py :: real

record packing = dims +
  placed :: "rect list"

definition gap :: real where
  "gap = 4"

definition size_of :: "rect \<Rightarrow> dims" where
  "size_of r = \<lparr>width = width r, height = height r\<rparr>"

text \<open>
  The scan for the free region with the least leftover. The state is \<^verbatim>\<open>bestIndex\<close> with
  \<^verbatim>\<open>bestScore\<close>, \<open>None\<close> for the initial \<^verbatim>\<open>-1\<close> and \<^verbatim>\<open>Infinity\<close>.
\<close>

fun find_best :: "dims \<Rightarrow> rect list \<Rightarrow> nat \<Rightarrow> (nat \<times> real) option \<Rightarrow> (nat \<times> real) option" where
  "find_best r [] i best = best"
| "find_best r (fr # frs) i best =
     find_best r frs (i + 1)
       (if width r \<le> width fr \<and> height r \<le> height fr then
          let leftoverX = width fr - width r;
              leftoverY = height fr - height r;
              score = min leftoverX leftoverY
          in (case best of
                None \<Rightarrow> Some (i, score)
              | Some (bestIndex, bestScore) \<Rightarrow>
                  if score < bestScore then Some (i, score) else best)
        else best)"

definition remove_nth :: "nat \<Rightarrow> 'a list \<Rightarrow> 'a list" where
  "remove_nth i xs = take i xs @ drop (Suc i) xs"

definition contained_in :: "rect \<Rightarrow> rect \<Rightarrow> bool" where
  "contained_in a b =
     (px a \<ge> px b \<and> py a \<ge> py b \<and>
      px a + width a \<le> px b + width b \<and>
      py a + height a \<le> py b + height b)"

text \<open>
  \<^verbatim>\<open>pruneFreeRects\<close>: \<open>i\<close> runs from the last index down; the region at \<open>i\<close> is removed
  when another region contains it.
\<close>

fun prune_loop :: "nat \<Rightarrow> rect list \<Rightarrow> rect list" where
  "prune_loop 0 freeRects = freeRects"
| "prune_loop (Suc i) freeRects =
     prune_loop i
       (if list_ex (\<lambda>j. j \<noteq> i \<and> contained_in (freeRects ! i) (freeRects ! j))
             [0..<length freeRects]
        then remove_nth i freeRects else freeRects)"

definition pruneFreeRects :: "rect list \<Rightarrow> rect list" where
  "pruneFreeRects freeRects = prune_loop (length freeRects) freeRects"

text \<open>
  What is left of the chosen free region: the part to the right of the placed
  rectangle and the part below it, each kept when it has a positive width and height.
\<close>

definition right_of :: "dims \<Rightarrow> rect \<Rightarrow> rect" where
  "right_of r target =
     \<lparr>width = width target - width r - gap, height = height r,
      px = px target + width r + gap, py = py target\<rparr>"

definition bottom_of :: "dims \<Rightarrow> rect \<Rightarrow> rect" where
  "bottom_of r target =
     \<lparr>width = width target, height = height target - height r - gap,
      px = px target, py = py target + height r + gap\<rparr>"

definition remainders :: "dims \<Rightarrow> rect \<Rightarrow> rect list" where
  "remainders r target =
     (let right = right_of r target;
          bottom = bottom_of r target
      in (if width right > 0 \<and> height right > 0 then [right] else [])
         @ (if width bottom > 0 \<and> height bottom > 0 then [bottom] else []))"

text \<open>
  The body of the loop over the sorted rectangles, on \<^verbatim>\<open>freeRects\<close> and \<^verbatim>\<open>placed\<close>. Reading
  \<^verbatim>\<open>freeRects[bestIndex]\<close> outside the array would give \<^verbatim>\<open>undefined\<close>, and the next line
  would throw a type error.
\<close>

datatype pack_error = TypeError

definition place_rect ::
  "real \<Rightarrow> real \<Rightarrow> dims \<Rightarrow> rect list \<times> rect list \<Rightarrow> pack_error + rect list \<times> rect list" where
  "place_rect targetWidth totalHeight r st =
     (case st of (freeRects, placedSoFar) \<Rightarrow>
        let (freeRects1, bestIndex) =
              (case find_best r freeRects 0 None of
                 None \<Rightarrow>
                   (freeRects @ [\<lparr>width = targetWidth, height = height r + gap,
                                   px = 0, py = totalHeight\<rparr>],
                    length freeRects)
               | Some (i, score) \<Rightarrow> (freeRects, i))
        in if bestIndex < length freeRects1 then
             let target = freeRects1 ! bestIndex;
                 placedRect = \<lparr>width = width r, height = height r,
                                px = px target, py = py target\<rparr>;
                 freeRects2 = remove_nth bestIndex freeRects1;
                 freeRects3 = freeRects2 @ remainders r target
             in Inr (pruneFreeRects freeRects3, placedSoFar @ [placedRect])
           else Inl TypeError)"

fun place_all ::
  "real \<Rightarrow> real \<Rightarrow> dims list \<Rightarrow> rect list \<times> rect list \<Rightarrow> pack_error + rect list \<times> rect list" where
  "place_all targetWidth totalHeight [] st = Inr st"
| "place_all targetWidth totalHeight (r # rs) st =
     (case place_rect targetWidth totalHeight r st of
        Inl e \<Rightarrow> Inl e
      | Inr st' \<Rightarrow> place_all targetWidth totalHeight rs st')"

definition by_max_side :: "dims \<Rightarrow> dims \<Rightarrow> real" where
  "by_max_side a b = max (width b) (height b) - max (width a) (height a)"

definition packMaxRects :: "dims list \<Rightarrow> real \<Rightarrow> pack_error + packing" where
  "packMaxRects rects targetWidth =
     (let totalHeight = fold (\<lambda>r s. s + height r) rects 0 + real (length rects) * gap;
          freeRects = [\<lparr>width = targetWidth, height = totalHeight, px = 0, py = 0\<rparr>];
          sorted = sort_by by_max_side rects
      in case place_all targetWidth totalHeight sorted (freeRects, []) of
           Inl e \<Rightarrow> Inl e
         | Inr (freeRects', placedRects) \<Rightarrow>
             Inr \<lparr>width = fold (\<lambda>r m. max m (px r + width r)) placedRects 0,
                  height = fold (\<lambda>r m. max m (py r + height r)) placedRects 0,
                  placed = placedRects\<rparr>)"

text \<open>
  The target widths that \<^verbatim>\<open>pickBestPacking\<close> tries, for a non-empty list of rectangles
  (a folder without children is not packed).
\<close>

definition candidate_widths :: "dims list \<Rightarrow> real list" where
  "candidate_widths rects =
     (let totalArea = fold (\<lambda>r s. s + width r * height r) rects 0;
          maxWidth = fold max (map width (tl rects)) (width (hd rects));
          base = max maxWidth (if sqrt totalArea = 0 then maxWidth else sqrt totalArea)
      in map (\<lambda>f. base * f) [0.7, 0.85, 1, 1.2, 1.5, 2])"

text \<open>Two placed rectangles overlap when their interiors meet.\<close>

definition overlap :: "rect \<Rightarrow> rect \<Rightarrow> bool" where
  "overlap a b =
     (px a < px b + width b \<and> px b < px a + width a \<and>
      py a < py b + height b \<and> py b < py a + height a)"

text \<open>A rectangle in the quadrant of non-negative coordinates.\<close>

definition in_quadrant :: "rect \<Rightarrow> bool" where
  "in_quadrant r \<longleftrightarrow> 0 \<le> px r \<and> 0 \<le> py r"

text \<open>Two rectangles are apart when they do not overlap.\<close>

definition apart :: "rect \<Rightarrow> rect \<Rightarrow> bool" where
  "apart a b \<longleftrightarrow> \<not> overlap a b"

text \<open>
  For the examples: a repository whose rule file ignores \<^verbatim>\<open>..cache\<close> and \<^verbatim>\<open>cache\<close>, with a
  directory \<^verbatim>\<open>sub\<close> whose rule file un-ignores both and which holds a file of each name.
\<close>

definition dotdot_repo :: fs_object where
  "dotdot_repo =
     Directory (Some
       [(js ''.git'', Directory (Some [])),
        (js ''.gitignore'', RegularFile (Some (map of_char (''..cache'' @ [CHR 0x0A] @ ''cache'')))),
        (js ''sub'', Directory (Some
           [(js ''.gitignore'',
               RegularFile (Some (map of_char (''!..cache'' @ [CHR 0x0A] @ ''!cache'')))),
            (js ''..cache'', RegularFile (Some [97, 10])),
            (js ''cache'', RegularFile (Some [97, 10]))]))])"

section \<open>Properties of line counting\<close>

lemma count_lf_eq: "count_lf buffer n = n + count_list buffer 10"
  unfolding count_lf_def by (induction buffer arbitrary: n) auto

lemma fold_on_data:
  assumes "[] \<notin> set chunks"
  shows "fold on_data chunks (n, d, l) =
           (n + count_list (concat chunks) 10,
            d \<or> chunks \<noteq> [],
            if chunks = [] then l else Some (last (concat chunks)))"
  using assms
proof (induction chunks arbitrary: n d l)
  case Nil
  then show ?case by simp
next
  case (Cons c cs)
  from Cons.prems have c: "c \<noteq> []" and cs: "[] \<notin> set cs" by auto
  have step: "on_data c (n, d, l) = (n + count_list c 10, True, Some (last c))"
    using c by (simp add: on_data_def count_lf_eq)
  have "fold on_data (c # cs) (n, d, l) =
          fold on_data cs (n + count_list c 10, True, Some (last c))"
    by (simp add: step)
  also have "\<dots> = (n + count_list c 10 + count_list (concat cs) 10, True,
                   if cs = [] then Some (last c) else Some (last (concat cs)))"
    by (simp add: Cons.IH [OF cs])
  finally show ?case
  proof (cases "cs = []")
    case True
    then show ?thesis
      using \<open>fold on_data (c # cs) (n, d, l) = _\<close> step by simp
  next
    case False
    then have "concat cs \<noteq> []"
      using cs by (cases cs) auto
    then show ?thesis
      using False \<open>fold on_data (c # cs) (n, d, l) = _\<close> by (simp add: Cons.IH [OF cs])
  qed
qed

text \<open>
  C5. For every stream of non-empty chunks (a read stream emits no empty \<^verbatim>\<open>data\<close> event),
  \<open>countLines\<close> is the number of line feeds of the whole content, plus one when the
  content is non-empty and does not end with a line feed; the split into chunks does not
  matter.
\<close>

theorem countLines_is_line_count:
  assumes "[] \<notin> set chunks"
  shows "countLines chunks = line_count_of (concat chunks)"
proof (cases "chunks = []")
  case True
  then show ?thesis
    by (simp add: countLines_def on_end_def line_count_of_def)
next
  case False
  then have "concat chunks \<noteq> []"
    using assms by (cases chunks) auto
  then show ?thesis
    using False
    by (simp add: countLines_def on_end_def line_count_of_def fold_on_data [OF assms])
qed

text \<open>
  The examples of the specification: \<^verbatim>\<open>"a\nb\nc"\<close> (here delivered in two chunks) has 3
  lines, \<^verbatim>\<open>"a\nb\nc\n"\<close> has 3 lines, the empty file has 0 lines.
\<close>

theorem countLines_is_line_count_witness:
  "countLines [[97, 10, 98], [10, 99]] = 3 \<and>
   countLines [[97, 10, 98, 10, 99, 10]] = 3 \<and>
   countLines [] = 0"
  using countLines_is_line_count [of "[[97, 10, 98], [10, 99]]"]
    countLines_is_line_count [of "[[97, 10, 98, 10, 99, 10]]"]
    countLines_is_line_count [of "[]"]
  by (simp add: line_count_of_def)

text \<open>
  The hypothesis is about the stream, not about the file: after an empty chunk the
  closure no longer knows the last byte, and a line feed before it does not close the last
  line.
\<close>

lemma countLines_after_empty_chunk: "countLines [[97, 10], []] = 2"
  by (simp add: countLines_def on_data_def on_end_def count_lf_def)

section \<open>Properties of segment compression\<close>

lemma expand_segments_Nil: "expand_segments [] = []"
  by (simp add: expand_segments_def)

lemma expand_segments_snoc:
  "expand_segments (segs @ [s]) = expand_segments segs @ replicate (lines s) (author s)"
  by (simp add: expand_segments_def)

lemma compress_loop_expand:
  "expand_segments (compress_loop rest l n segs) =
     expand_segments segs @ replicate n l @ rest"
proof (induction rest arbitrary: l n segs)
  case Nil
  then show ?case by (simp add: expand_segments_snoc)
next
  case (Cons a rest)
  show ?case
  proof (cases "a = l")
    case True
    then show ?thesis
      by (simp add: Cons.IH replicate_app_Cons_same)
  next
    case False
    then show ?thesis
      by (simp add: Cons.IH expand_segments_snoc)
  qed
qed

lemma compress_loop_positive:
  assumes "\<forall>s \<in> set segs. 1 \<le> lines s" and "1 \<le> n"
  shows "\<forall>s \<in> set (compress_loop rest l n segs). 1 \<le> lines s"
  using assms
proof (induction rest arbitrary: l n segs)
  case Nil
  then show ?case by simp
next
  case (Cons a rest)
  show ?case
  proof (cases "a = l")
    case True
    have "\<forall>s \<in> set (compress_loop rest l (n + 1) segs). 1 \<le> lines s"
      by (rule Cons.IH) (use Cons.prems in simp_all)
    then show ?thesis using True by simp
  next
    case False
    have "\<forall>s \<in> set (compress_loop rest a 1 (segs @ [\<lparr>author = l, lines = n\<rparr>])). 1 \<le> lines s"
      by (rule Cons.IH) (use Cons.prems in simp_all)
    then show ?thesis using False by simp
  qed
qed

lemma compress_loop_distinct_adj:
  assumes "distinct_adj (map author segs)" and "segs \<noteq> [] \<Longrightarrow> author (last segs) \<noteq> l"
  shows "distinct_adj (map author (compress_loop rest l n segs))"
  using assms
proof (induction rest arbitrary: l n segs)
  case Nil
  then show ?case
    by (cases "segs = []") (auto simp: distinct_adj_append_iff last_map)
next
  case (Cons a rest)
  show ?case
  proof (cases "a = l")
    case True
    then show ?thesis using Cons by simp
  next
    case False
    have "distinct_adj (map author (segs @ [\<lparr>author = l, lines = n\<rparr>]))"
      using Cons.prems by (cases "segs = []") (auto simp: distinct_adj_append_iff last_map)
    then show ?thesis
      using False by (simp add: Cons.IH)
  qed
qed

lemma compress_loop_run_lengths:
  "compress_loop rest l n segs =
     segs @ \<lparr>author = l, lines = n + length (takeWhile (\<lambda>b. b = l) rest)\<rparr>
              # run_lengths (dropWhile (\<lambda>b. b = l) rest)"
proof (induction rest arbitrary: l n segs)
  case Nil
  then show ?case by simp
next
  case (Cons a rest)
  show ?case
  proof (cases "a = l")
    case True
    then show ?thesis by (simp add: Cons.IH)
  next
    case False
    then show ?thesis by (simp add: Cons.IH)
  qed
qed

lemma segments_of_authors_run_lengths:
  "segments_of_authors authors = (if authors = [] then None else Some (run_lengths authors))"
  by (cases authors) (simp_all add: segments_of_authors_def compress_loop_run_lengths)

text \<open>
  C3. The segments are the run-length encoding of the author list. No author gives no
  segment list; a non-empty author list always gives one, and it is the run-length
  encoding of the list. Expanding the segments gives the author list back, in order;
  every segment has at least one line; neighbouring segments have different authors. The
  authors \<open>[a, a, b, b, b, a]\<close> give \<open>[(a, 2), (b, 3), (a, 1)]\<close>.
\<close>

theorem segments_run_length:
  "segments_of_authors [] = None \<and>
   (authors \<noteq> [] \<longrightarrow> segments_of_authors authors = Some (run_lengths authors)) \<and>
   (segments_of_authors authors = Some segs \<longrightarrow>
      expand_segments segs = authors \<and>
      (\<forall>s \<in> set segs. 1 \<le> lines s) \<and>
      distinct_adj (map author segs)) \<and>
   (a \<noteq> b \<longrightarrow>
      segments_of_authors [a, a, b, b, b, a] =
        Some [\<lparr>author = a, lines = 2\<rparr>, \<lparr>author = b, lines = 3\<rparr>, \<lparr>author = a, lines = 1\<rparr>])"
proof (intro conjI impI)
  show "segments_of_authors [] = None"
    by (simp add: segments_of_authors_def)
  show "segments_of_authors authors = Some (run_lengths authors)" if "authors \<noteq> []"
    using that by (simp add: segments_of_authors_run_lengths)
next
  assume "segments_of_authors authors = Some segs"
  then obtain a0 rest where au: "authors = a0 # rest" and segs: "segs = compress_loop rest a0 1 []"
    by (auto simp: segments_of_authors_def split: list.splits)
  show "expand_segments segs = authors"
    by (simp add: au segs compress_loop_expand expand_segments_Nil)
  show "\<forall>s \<in> set segs. 1 \<le> lines s"
    unfolding segs by (rule compress_loop_positive) simp_all
  show "distinct_adj (map author segs)"
    unfolding segs by (rule compress_loop_distinct_adj) simp_all
next
  assume "a \<noteq> b"
  then show "segments_of_authors [a, a, b, b, b, a] =
        Some [\<lparr>author = a, lines = 2\<rparr>, \<lparr>author = b, lines = 3\<rparr>, \<lparr>author = a, lines = 1\<rparr>]"
    by (simp add: segments_of_authors_def)
qed

theorem segments_run_length_witness:
  "segments_of_authors [js ''A'', js ''A'', js ''B'', js ''B'', js ''B'', js ''A''] =
     Some [\<lparr>author = js ''A'', lines = 2\<rparr>, \<lparr>author = js ''B'', lines = 3\<rparr>,
           \<lparr>author = js ''A'', lines = 1\<rparr>] \<and>
   run_lengths [js ''A'', js ''A'', js ''B'', js ''B'', js ''B'', js ''A''] =
     [\<lparr>author = js ''A'', lines = 2\<rparr>, \<lparr>author = js ''B'', lines = 3\<rparr>,
           \<lparr>author = js ''A'', lines = 1\<rparr>] \<and>
   expand_segments [\<lparr>author = js ''A'', lines = 2\<rparr>, \<lparr>author = js ''B'', lines = 3\<rparr>,
           \<lparr>author = js ''A'', lines = 1\<rparr>] =
     [js ''A'', js ''A'', js ''B'', js ''B'', js ''B'', js ''A''] \<and>
   list_all (\<lambda>s. 1 \<le> lines s)
     [\<lparr>author = js ''A'', lines = 2\<rparr>, \<lparr>author = js ''B'', lines = 3\<rparr>,
      \<lparr>author = js ''A'', lines = 1\<rparr>] \<and>
   distinct_adj (map author [\<lparr>author = js ''A'', lines = 2\<rparr>, \<lparr>author = js ''B'', lines = 3\<rparr>,
           \<lparr>author = js ''A'', lines = 1\<rparr>])"
proof -
  let ?as = "[js ''A'', js ''A'', js ''B'', js ''B'', js ''B'', js ''A'']"
  let ?segs = "[\<lparr>author = js ''A'', lines = 2\<rparr>, \<lparr>author = js ''B'', lines = 3\<rparr>,
            \<lparr>author = js ''A'', lines = 1\<rparr>]"
  have ne: "js ''A'' \<noteq> js ''B''"
    by (simp add: js_def)
  have ex: "segments_of_authors ?as = Some ?segs"
    using segments_run_length [of "[]" "[]" "js ''A''" "js ''B''"] ne by blast
  have rl: "segments_of_authors ?as = Some (run_lengths ?as)"
    using segments_run_length [of ?as ?segs "js ''A''" "js ''B''"] by blast
  show ?thesis
    using ex rl segments_run_length [of ?as ?segs "js ''A''" "js ''B''"]
    by (simp add: list_all_iff)
qed

section \<open>Segments and line counts\<close>

lemma split_on_nonempty: "split_on sep s \<noteq> []"
  by (induction s) (auto split: list.splits)

lemma length_split_on: "length (split_on sep s) = Suc (count_list s sep)"
  by (induction s) (auto split: list.splits simp: split_on_nonempty)

lemma split_on_single_Nil: "split_on sep s = [[]] \<longleftrightarrow> s = []"
  by (cases s) (auto split: list.splits simp: split_on_nonempty)

lemma last_split_on_Nil: "last (split_on sep s) = [] \<longleftrightarrow> s = [] \<or> last s = sep"
proof (induction s)
  case Nil
  then show ?case by simp
next
  case (Cons c s)
  obtain p ps where sp: "split_on sep s = p # ps"
    using split_on_nonempty [of sep s] by (cases "split_on sep s") auto
  show ?case
  proof (cases "c = sep")
    case True
    then have "last (split_on sep (c # s)) = last (split_on sep s)"
      by (simp add: split_on_nonempty)
    then show ?thesis
      using True Cons.IH by auto
  next
    case False
    show ?thesis
    proof (cases "ps = []")
      case True
      then have "last (split_on sep (c # s)) = c # p"
        using False sp by simp
      moreover have "s \<noteq> [] \<Longrightarrow> last s \<noteq> sep"
        using Cons.IH sp True split_on_single_Nil [of sep s] by auto
      ultimately show ?thesis
        using False by auto
    next
      case nonempty: False
      then have "last (split_on sep (c # s)) = last (split_on sep s)"
        using False sp by simp
      moreover have "s \<noteq> []"
        using sp nonempty by auto
      ultimately show ?thesis
        using Cons.IH by auto
    qed
  qed
qed

lemma length_physical_lines: "length (physical_lines content) = line_count_of content"
proof (cases "content = [] \<or> last content = 10")
  case True
  then have "last (split_on 10 content) = []"
    by (simp add: last_split_on_Nil)
  then show ?thesis
    using True by (auto simp: physical_lines_def line_count_of_def length_split_on)
next
  case False
  then have "last (split_on 10 content) \<noteq> []"
    by (simp add: last_split_on_Nil)
  then show ?thesis
    using False by (auto simp: physical_lines_def line_count_of_def length_split_on)
qed

lemma split_on_line:
  assumes "sep \<notin> set l"
  shows "split_on sep (l @ sep # s) = l # split_on sep s"
  using assms by (induction l) (auto split: list.splits)

lemma compress_loop_sum:
  "sum_list (map lines (compress_loop rest l n segs)) =
     sum_list (map lines segs) + n + length rest"
  by (induction rest arbitrary: l n segs) auto

lemma segments_of_authors_sum:
  assumes "segments_of_authors authors = Some segs"
  shows "sum_list (map lines segs) = length authors"
  using assms
  by (auto simp: segments_of_authors_def compress_loop_sum split: list.splits)

lemma split_on_header:
  assumes "list_all (\<lambda>h. sep \<notin> set h) hs"
  shows "split_on sep (concat (map (\<lambda>h. h @ [sep]) hs) @ s) = hs @ split_on sep s"
  using assms by (induction hs) (simp_all add: split_on_line)

lemma split_on_porcelain:
  assumes "list_all wf_blame_record rs"
  shows "split_on 0xA (porcelain rs) =
           concat (map (\<lambda>r. header r @ [js [CHR 0x09] @ line_text r]) rs) @ [[]]"
  using assms
proof (induction rs)
  case Nil
  then show ?case by (simp add: porcelain_def)
next
  case (Cons r rs)
  then have wf: "wf_blame_record r" and IH: "split_on 0xA (porcelain rs) =
           concat (map (\<lambda>r. header r @ [js [CHR 0x09] @ line_text r]) rs) @ [[]]"
    by simp_all
  have hs: "list_all (\<lambda>h. 0xA \<notin> set h) (header r)"
    using wf by (auto simp: wf_blame_record_def list_all_iff)
  have l: "0xA \<notin> set (js [CHR 0x09] @ line_text r)"
    using wf by (simp add: wf_blame_record_def js_def)
  have "porcelain (r # rs) =
          concat (map (\<lambda>h. h @ [0xA]) (header r))
            @ ((js [CHR 0x09] @ line_text r) @ 0xA # porcelain rs)"
    by (simp add: porcelain_def)
  then show ?case
    by (simp only: split_on_header [OF hs] split_on_line [OF l] IH) simp
qed

lemma length_fold_parse_step:
  "length (fst (fold parse_step ls (as, cur))) = length as + length (filter is_content_line ls)"
  by (induction ls arbitrary: as cur) (auto simp: parse_step_def is_content_line_def Let_def)

lemma header_no_content_line:
  assumes "wf_blame_record r"
  shows "filter is_content_line (header r) = []"
  using assms
  by (auto simp: wf_blame_record_def list_all_iff is_content_line_def filter_empty_conv)

lemma tab_line_is_content_line: "is_content_line (js [CHR 0x09] @ t)"
  by (simp add: is_content_line_def startsWith_def js_def)

lemma length_parse_authors_porcelain:
  assumes "list_all wf_blame_record rs"
  shows "length (parse_authors (porcelain rs)) = length rs"
proof -
  have "length (filter is_content_line
          (concat (map (\<lambda>r. header r @ [js [CHR 0x09] @ line_text r]) rs))) = length rs"
    using assms
    by (induction rs) (simp_all add: header_no_content_line tab_line_is_content_line)
  moreover have "\<not> is_content_line []"
    by (simp add: is_content_line_def startsWith_def js_def)
  ultimately show ?thesis
    unfolding parse_authors_def split_on_porcelain [OF assms] length_fold_parse_step
    by simp
qed

lemma chunks_of_Nil: "chunks_of n [] = []"
  by (simp add: chunks_of.simps)

lemma chunks_of_step:
  "0 < n \<Longrightarrow> xs \<noteq> [] \<Longrightarrow> chunks_of n xs = take n xs # chunks_of n (drop n xs)"
  by (simp add: chunks_of.simps [of n xs])

lemma chunks_of_concat: "0 < n \<Longrightarrow> concat (chunks_of n xs) = xs"
proof (induction n xs rule: chunks_of.induct)
  case (1 n xs)
  show ?case
  proof (cases "xs = []")
    case True
    then show ?thesis by (simp add: chunks_of_Nil)
  next
    case False
    then show ?thesis
      using 1 by (simp add: chunks_of_step)
  qed
qed

lemma chunks_of_nonempty: "[] \<notin> set (chunks_of n xs)"
proof (induction n xs rule: chunks_of.induct)
  case (1 n xs)
  show ?case
  proof (cases "n = 0 \<or> xs = []")
    case True
    then show ?thesis by (auto simp: chunks_of.simps [of n xs])
  next
    case False
    then show ?thesis
      using 1 by (simp add: chunks_of_step)
  qed
qed

lemma countLines_stream_chunks: "countLines (stream_chunks content) = line_count_of content"
proof (cases "content = []")
  case True
  then show ?thesis
    by (simp add: stream_chunks_def chunks_of_Nil countLines_def on_end_def line_count_of_def)
next
  case False
  have ne: "[] \<notin> set (stream_chunks content)"
    and whole: "concat (stream_chunks content) = content"
    by (simp_all add: stream_chunks_def chunks_of_nonempty chunks_of_concat)
  have "stream_chunks content \<noteq> []"
    using whole False by auto
  then show ?thesis
    using False
    by (simp add: countLines_def on_end_def line_count_of_def fold_on_data [OF ne] whole)
qed

lemma is_content_line_tab: "is_content_line l \<longleftrightarrow> startsWith l (js [CHR 0x09])"
  by (cases l) (auto simp: is_content_line_def startsWith_def js_def)

lemma length_parse_authors: "length (parse_authors stdout) = length (content_lines stdout)"
proof -
  have "is_content_line = (\<lambda>l. startsWith l (js [CHR 0x09]))"
    by (rule ext) (rule is_content_line_tab)
  then show ?thesis
    by (simp add: parse_authors_def content_lines_def length_fold_parse_step)
qed

lemma blame_file_lineCount: "lineCount (blame_file git n) = lineCount n"
  by (cases n)
     (auto simp: blame_file_def set_blameSegments_def split: option.splits FileNode.splits)

text \<open>
  C1, as the code has it. Take a file whose node is built from the content \<open>content\<close> read
  at its path. If the node carries segments after the attribution step, then the blame
  query for the path gave an output, the line counts of the segments add up to the number
  of tab-prefixed lines of that output (for a well-formed output: the number of its
  records), and the recorded \<open>lineCount\<close> is the number of line feeds of \<open>content\<close>, plus one
  for a final partial line. Nothing in the code compares the two numbers.
\<close>

theorem segments_sum_and_lineCount:
  assumes segs: "blameSegments (blame_file git (file_node currentPath (Some content))) = Some segs"
  shows "(\<exists>stdout. git (path_string currentPath) = Inr stdout
            \<and> sum_list (map lines segs) = length (content_lines stdout)) \<and>
         lineCount (blame_file git (file_node currentPath (Some content)))
           = Some (line_count_of content) \<and>
         (\<forall>rs. list_all wf_blame_record rs \<and> git (path_string currentPath) = Inr (porcelain rs)
            \<longrightarrow> sum_list (map lines segs) = length rs)"
proof -
  let ?n = "file_node currentPath (Some content)"
  have p: "path ?n = path_string currentPath" and b: "blameSegments ?n = None"
    by (simp_all add: file_node_def Let_def)
  have is_text: "isText ?n = Some True"
    using segs b by (auto simp: blame_file_def split: if_splits)
  then have lc: "lineCount ?n = Some (line_count_of content)"
    by (auto simp: file_node_def Let_def countLines_stream_chunks split: if_splits)
  have got: "getBlameSegments (git (path_string currentPath)) = Some segs"
    using segs b is_text p
    by (auto simp: blame_file_def set_blameSegments_def split: option.splits if_splits FileNode.splits)
  then obtain stdout where run: "git (path_string currentPath) = Inr stdout"
    and sa: "segments_of_authors (parse_authors stdout) = Some segs"
    by (auto simp: getBlameSegments_def split: sum.splits)
  have total: "sum_list (map lines segs) = length (content_lines stdout)"
    using sa by (simp add: segments_of_authors_sum length_parse_authors)
  have records: "sum_list (map lines segs) = length rs"
    if "list_all wf_blame_record rs \<and> git (path_string currentPath) = Inr (porcelain rs)" for rs
  proof -
    have "stdout = porcelain rs"
      using that run by simp
    then show ?thesis
      using sa that by (simp add: segments_of_authors_sum length_parse_authors_porcelain)
  qed
  show ?thesis
    using run total records by (simp add: blame_file_lineCount lc)
qed

theorem segments_sum_and_lineCount_witness:
  "blameSegments
     (blame_file
        (\<lambda>p. Inr (porcelain [\<lparr>header = [js ''author X''], line_text = js ''a''\<rparr>,
                              \<lparr>header = [js ''author Y''], line_text = js ''b''\<rparr>]))
        (file_node [js ''a.txt''] (Some [97, 10, 98])))
     = Some [\<lparr>author = js ''X'', lines = 1\<rparr>, \<lparr>author = js ''Y'', lines = 1\<rparr>] \<and>
   length (content_lines (porcelain [\<lparr>header = [js ''author X''], line_text = js ''a''\<rparr>,
                              \<lparr>header = [js ''author Y''], line_text = js ''b''\<rparr>])) = 2 \<and>
   lineCount
     (blame_file
        (\<lambda>p. Inr (porcelain [\<lparr>header = [js ''author X''], line_text = js ''a''\<rparr>,
                              \<lparr>header = [js ''author Y''], line_text = js ''b''\<rparr>]))
        (file_node [js ''a.txt''] (Some [97, 10, 98])))
     = Some 2 \<and>
   line_count_of [97, 10, 98] = 2"
proof -
  let ?rs = "[\<lparr>header = [js ''author X''], line_text = js ''a''\<rparr>,
              \<lparr>header = [js ''author Y''], line_text = js ''b''\<rparr>]"
  let ?git = "\<lambda>p :: jsstring. (Inr (porcelain ?rs) :: exec_error + jsstring)"
  have ch: "stream_chunks [97, 10, 98] = [[97, 10, 98]]"
    by (simp add: stream_chunks_def chunks_of.simps [of _ "[97, 10, 98]"] chunks_of.simps [of _ "[]"])
  have node: "file_node [js ''a.txt''] (Some [97, 10, 98]) =
      FileNode (js ''a.txt'') (path_string [js ''a.txt'']) File (Some True) (Some 2) None None"
    by (simp add: file_node_def isTextFile_def ch countLines_def on_data_def on_end_def
        count_lf_def basename_def)
  have parsed: "parse_authors (porcelain ?rs) = [js ''X'', js ''Y'']"
    by (simp add: porcelain_def parse_authors_def parse_step_def js_def startsWith_def
        trim_def is_js_space_def)
  have ne: "js ''Y'' \<noteq> js ''X''"
    by (simp add: js_def)
  have segs: "blameSegments (blame_file ?git (file_node [js ''a.txt''] (Some [97, 10, 98])))
      = Some [\<lparr>author = js ''X'', lines = 1\<rparr>, \<lparr>author = js ''Y'', lines = 1\<rparr>]"
    using ne
    by (simp add: node blame_file_def getBlameSegments_def parsed segments_of_authors_def
        set_blameSegments_def)
  have lc: "line_count_of [97, 10, 98] = 2"
    by (simp add: line_count_of_def)
  show ?thesis
    using segs lc segments_sum_and_lineCount [OF segs] by simp
qed

text \<open>
  The sum of the segments and \<open>lineCount\<close> differ for a tracked symbolic link to a text
  file: the walk counts the three lines of the target, the blame query answers with the
  one line of the link.
\<close>

theorem symlink_segments_sum:
  "list_all wf_blame_record link_records \<and>
   lineCount (blame_file link_blame (file_node [js ''link.txt''] (Some link_target_content)))
     = Some 3 \<and>
   blameSegments (blame_file link_blame (file_node [js ''link.txt''] (Some link_target_content)))
     = Some [\<lparr>author = js ''X'', lines = 1\<rparr>] \<and>
   sum_list (map lines [\<lparr>author = js ''X'', lines = 1\<rparr>]) = 1 \<and>
   lineCount (blame_file link_blame (file_node [js ''link.txt''] (Some link_target_content)))
     \<noteq> Some (sum_list (map lines [\<lparr>author = js ''X'', lines = 1\<rparr>]))"
proof -
  have wf: "list_all wf_blame_record link_records"
    by (simp add: link_records_def wf_blame_record_def js_def startsWith_def)
  have lc: "line_count_of link_target_content = 3"
    by (simp add: line_count_of_def link_target_content_def)
  have z: "list_all (\<lambda>b. b \<noteq> 0) (take 8192 link_target_content)"
    by (simp add: link_target_content_def)
  have node: "file_node [js ''link.txt''] (Some link_target_content) =
      FileNode (js ''link.txt'') (path_string [js ''link.txt'']) File (Some True) (Some 3) None None"
    using z by (simp add: file_node_def Let_def countLines_stream_chunks isTextFile_def lc basename_def)
  have parsed: "parse_authors (porcelain link_records) = [js ''X'']"
    by (simp add: link_records_def porcelain_def parse_authors_def parse_step_def js_def
        startsWith_def trim_def is_js_space_def)
  show ?thesis
    using wf
    by (simp add: node blame_file_def link_blame_def getBlameSegments_def parsed
        segments_of_authors_def set_blameSegments_def)
qed

section \<open>The frame of attribution\<close>

lemma collect_loop_append:
  "collect_loop stack files = files @ concat (map (\<lambda>e. collect_loop [e] []) stack)"
proof (induction "sum_list (map (node_size \<circ> snd) stack)" arbitrary: stack files rule: less_induct)
  case less
  show ?case
  proof (cases stack)
    case Nil
    then show ?thesis by (simp add: collect_loop.simps)
  next
    case (Cons e rest)
    obtain p node where e: "e = (p, node)" by (cases e)
    have node_pos: "0 < node_size node" by (cases node) simp
    have rest_less: "sum_list (map (node_size \<circ> snd) rest) < sum_list (map (node_size \<circ> snd) stack)"
      using node_pos by (simp add: Cons e)
    show ?thesis
    proof (cases "ntype node = File")
      case True
      then show ?thesis
        using less [OF rest_less, of "files @ [(p, node)]"] by (simp add: Cons e collect_loop.simps)
    next
      case False
      show ?thesis
      proof (cases "children node")
        case None
        then show ?thesis
          using False less [OF rest_less, of files] by (simp add: Cons e collect_loop.simps)
      next
        case (Some cs)
        let ?ic = "rev (indexed_children p cs)"
        have sz: "sum_list (map (node_size \<circ> snd) ?ic) < node_size node"
        proof -
          have "map (node_size \<circ> snd) (indexed_children p cs) = map node_size cs"
            by (rule nth_equalityI) (simp_all add: indexed_children_def)
          then have "sum_list (map (node_size \<circ> snd) ?ic) = sum_list (map node_size cs)"
            by (simp add: rev_map [symmetric] sum_list_rev del: map_map)
          then show ?thesis
            using Some by (cases node) simp
        qed
        have l1: "sum_list (map (node_size \<circ> snd) (?ic @ rest))
                    < sum_list (map (node_size \<circ> snd) stack)"
          using sz by (simp add: Cons e)
        have l2: "sum_list (map (node_size \<circ> snd) ?ic)
                    < sum_list (map (node_size \<circ> snd) stack)"
          using sz by (simp add: Cons e)
        have "collect_loop stack files = collect_loop (?ic @ rest) files"
          using False Some by (simp add: Cons e collect_loop.simps)
        also have "\<dots> = files @ concat (map (\<lambda>e. collect_loop [e] []) (?ic @ rest))"
          by (rule less [OF l1])
        finally have whole: "collect_loop stack files =
            files @ concat (map (\<lambda>e. collect_loop [e] []) (?ic @ rest))" .
        have "collect_loop [(p, node)] [] = collect_loop ?ic []"
          using False Some by (simp add: collect_loop.simps)
        also have "\<dots> = concat (map (\<lambda>e. collect_loop [e] []) ?ic)"
          using less [OF l2, of "[]"] by simp
        finally have "collect_loop [e] [] = concat (map (\<lambda>e. collect_loop [e] []) ?ic)"
          by (simp add: e)
        then show ?thesis
          using whole by (simp add: Cons)
      qed
    qed
  qed
qed

lemma collect_single:
  "collect_loop [(p, n)] [] =
     (if ntype n = File then [(p, n)]
      else (case children n of
              None \<Rightarrow> []
            | Some cs \<Rightarrow> concat (map (\<lambda>e. collect_loop [e] []) (rev (indexed_children p cs)))))"
proof (cases "ntype n = File")
  case True
  then show ?thesis by (simp add: collect_loop.simps)
next
  case False
  show ?thesis
  proof (cases "children n")
    case None
    then show ?thesis using False by (simp add: collect_loop.simps)
  next
    case (Some cs)
    have "collect_loop [(p, n)] [] = collect_loop (rev (indexed_children p cs)) []"
      using False Some by (simp add: collect_loop.simps)
    then show ?thesis
      using False Some collect_loop_append [of "rev (indexed_children p cs)" "[]"] by simp
  qed
qed

lemma collect_shift:
  "collect_loop [(p, n)] [] = map (\<lambda>(q, m). (p @ q, m)) (collect_loop [([], n)] [])"
proof (induction "node_size n" arbitrary: p n rule: less_induct)
  case less
  show ?case
  proof (cases "ntype n = File")
    case True
    then show ?thesis by (simp add: collect_single)
  next
    case False
    show ?thesis
    proof (cases "children n")
      case None
      then show ?thesis using False by (simp add: collect_single)
    next
      case (Some cs)
      have small: "node_size (cs ! i) < node_size n" if "i < length cs" for i
      proof -
        have "cs ! i \<in> set cs" using that by simp
        then have "node_size (cs ! i) \<le> sum_list (map node_size cs)"
          by (simp add: member_le_sum_list)
        then show ?thesis using Some by (cases n) simp
      qed
      have each: "collect_loop [(r @ [i], cs ! i)] []
                    = map (\<lambda>(q, m). (r @ i # q, m)) (collect_loop [([], cs ! i)] [])"
        if "i < length cs" for i r
        using less [OF small [OF that], of "r @ [i]"] by simp
      have "collect_loop [(r, n)] [] =
              concat (map (\<lambda>i. map (\<lambda>(q, m). (r @ i # q, m)) (collect_loop [([], cs ! i)] []))
                        (rev [0..<length cs]))" for r
      proof -
        have "map (\<lambda>i. collect_loop [(r @ [i], cs ! i)] []) (rev [0..<length cs]) =
              map (\<lambda>i. map (\<lambda>(q, m). (r @ i # q, m)) (collect_loop [([], cs ! i)] []))
                (rev [0..<length cs])"
          by (rule map_cong) (use each in auto)
        moreover have "collect_loop [(r, n)] [] =
              concat (map (\<lambda>i. collect_loop [(r @ [i], cs ! i)] []) (rev [0..<length cs]))"
          unfolding collect_single [of r n]
          using False Some
          by (simp add: indexed_children_def rev_map comp_def)
        ultimately show ?thesis
          by (simp only:)
      qed
      from this [of p] this [of "[]"] show ?thesis
        by (simp add: map_concat comp_def case_prod_unfold)
    qed
  qed
qed

lemma collect_folder:
  assumes "ntype n \<noteq> File" and "children n = Some cs"
  shows "collect_loop [([], n)] [] =
           concat (map (\<lambda>i. map (\<lambda>(q, m). (i # q, m)) (collect_loop [([], cs ! i)] []))
                     (rev [0..<length cs]))"
proof -
  have "map (\<lambda>i. collect_loop [([i], cs ! i)] []) (rev [0..<length cs]) =
        map (\<lambda>i. map (\<lambda>(q, m). (i # q, m)) (collect_loop [([], cs ! i)] []))
          (rev [0..<length cs])"
    by (rule map_cong) (use collect_shift [of "[i]" for i] in auto)
  moreover have "collect_loop [([], n)] [] =
        concat (map (\<lambda>i. collect_loop [([i], cs ! i)] []) (rev [0..<length cs]))"
    unfolding collect_single [of "[]" n]
    using assms by (simp add: indexed_children_def rev_map comp_def)
  ultimately show ?thesis
    by (simp only:)
qed

lemma update_child_nth:
  "update_child f i q cs = (if i < length cs then cs[i := update_at f q (cs ! i)] else cs)"
proof (induction cs arbitrary: i)
  case Nil
  then show ?case by simp
next
  case (Cons c cs)
  then show ?case by (cases i) simp_all
qed

lemma fold_update_below:
  assumes "i < length cs"
  shows "fold (\<lambda>(p, file) tree. update_at f p tree) (map (\<lambda>(q, m). (i # q, m)) l)
           (FileNode nm pth t it lc bs (Some cs))
         = FileNode nm pth t it lc bs
             (Some (cs[i := fold (\<lambda>(p, file) tree. update_at f p tree) l (cs ! i)]))"
  using assms
proof (induction l arbitrary: cs)
  case Nil
  then show ?case by simp
next
  case (Cons e l)
  obtain q m where e: "e = (q, m)" by (cases e)
  let ?cs = "cs[i := update_at f q (cs ! i)]"
  have "i < length ?cs" using Cons.prems by simp
  from Cons.IH [OF this] show ?case
    using Cons.prems by (simp add: e update_child_nth)
qed

lemma fold_update_groups:
  assumes "k \<le> length cs" and "length cs' = length cs" and "\<forall>i<k. cs' ! i = cs ! i"
  shows "fold (\<lambda>(p, file) tree. update_at f p tree)
           (concat (map (\<lambda>i. map (\<lambda>(q, m). (i # q, m)) (C (cs ! i))) (rev [0..<k])))
           (FileNode nm pth t it lc bs (Some cs'))
         = FileNode nm pth t it lc bs
             (Some (map (\<lambda>c. fold (\<lambda>(p, file) tree. update_at f p tree) (C c) c) (take k cs)
                    @ drop k cs'))"
  using assms
proof (induction k arbitrary: cs')
  case 0
  then show ?case by simp
next
  case (Suc k)
  let ?F = "\<lambda>c. fold (\<lambda>(p, file) tree. update_at f p tree) (C c) c"
  let ?cs = "cs'[k := ?F (cs ! k)]"
  have k: "k < length cs'" "k < length cs" "cs' ! k = cs ! k"
    using Suc.prems by simp_all
  have first: "fold (\<lambda>(p, file) tree. update_at f p tree)
                 (map (\<lambda>(q, m). (k # q, m)) (C (cs ! k)))
                 (FileNode nm pth t it lc bs (Some cs'))
               = FileNode nm pth t it lc bs (Some ?cs)"
    using fold_update_below [OF k(1), of f "C (cs ! k)"] k(3) by simp
  have rest: "fold (\<lambda>(p, file) tree. update_at f p tree)
           (concat (map (\<lambda>i. map (\<lambda>(q, m). (i # q, m)) (C (cs ! i))) (rev [0..<k])))
           (FileNode nm pth t it lc bs (Some ?cs))
         = FileNode nm pth t it lc bs (Some (map ?F (take k cs) @ drop k ?cs))"
    by (rule Suc.IH) (use Suc.prems in simp_all)
  have "map ?F (take k cs) @ drop k ?cs = map ?F (take (Suc k) cs) @ drop (Suc k) cs'"
    using k by (simp add: take_Suc_conv_app_nth drop_update_cancel Cons_nth_drop_Suc [symmetric]
        upd_conv_take_nth_drop)
  then show ?case
    using first rest by simp
qed

lemma node_size_child:
  assumes "children n = Some cs" and "c \<in> set cs"
  shows "node_size c < node_size n"
proof -
  have "node_size c \<le> sum_list (map node_size cs)"
    using assms(2) by (simp add: member_le_sum_list)
  then show ?thesis using assms(1) by (cases n) simp
qed

lemma fold_collect_annotate:
  "fold (\<lambda>(p, file) tree. update_at (blame_file git) p tree) (collect_loop [([], n)] []) n
     = annotate git n"
proof (induction "node_size n" arbitrary: n rule: less_induct)
  case less
  obtain nm pth t it lc bs ch where n: "n = FileNode nm pth t it lc bs ch"
    by (cases n)
  show ?case
  proof (cases "t = File")
    case True
    then show ?thesis
      by (simp add: n collect_single)
  next
    case False
    show ?thesis
    proof (cases ch)
      case None
      then show ?thesis
        using False by (simp add: n collect_single)
    next
      case (Some cs)
      have ch: "children n = Some cs" and ty: "ntype n \<noteq> File"
        using False Some by (simp_all add: n)
      have "fold (\<lambda>(p, file) tree. update_at (blame_file git) p tree)
              (collect_loop [([], n)] []) (FileNode nm pth t it lc bs (Some cs))
            = FileNode nm pth t it lc bs
                (Some (map (\<lambda>c. fold (\<lambda>(p, file) tree. update_at (blame_file git) p tree)
                               (collect_loop [([], c)] []) c) (take (length cs) cs)
                       @ drop (length cs) cs))"
        unfolding collect_folder [OF ty ch]
        by (rule fold_update_groups) simp_all
      moreover have "map (\<lambda>c. fold (\<lambda>(p, file) tree. update_at (blame_file git) p tree)
                               (collect_loop [([], c)] []) c) cs
                     = map (annotate git) cs"
        by (rule map_cong) (use less node_size_child [OF ch] in auto)
      ultimately show ?thesis
        using False by (simp add: n Some)
    qed
  qed
qed

lemma addBlameInfo_annotate: "addBlameInfo git rootNode = annotate git rootNode"
  by (simp add: addBlameInfo_def collectFileNodes_def fold_collect_annotate)

lemma blame_file_cases:
  "blame_file git n = n \<or>
   (isText n = Some True \<and>
    (\<exists>s ss. getBlameSegments (git (path n)) = Some (s # ss)
            \<and> blame_file git n = set_blameSegments (s # ss) n))"
  by (auto simp: blame_file_def neq_Nil_conv split: option.splits)

lemma forget_blame_set: "forget_blame (set_blameSegments segs n) = forget_blame n"
  by (cases n) (simp add: set_blameSegments_def)

lemma forget_blame_file: "forget_blame (blame_file git n) = forget_blame n"
  using blame_file_cases [of git n] by (auto simp: forget_blame_set)

lemma forget_blame_annotate: "forget_blame (annotate git n) = forget_blame n"
proof (induction n)
  case (FileNode nm pth t it lc bs ch)
  show ?case
  proof (cases "t = File")
    case True
    then show ?thesis by (simp add: forget_blame_file)
  next
    case False
    have "map_option (map (forget_blame \<circ> annotate git)) ch = map_option (map forget_blame) ch"
      by (rule option.map_cong, simp, rule list.map_cong, simp)
         (use FileNode.IH in \<open>auto simp: option.set_map\<close>)
    then show ?thesis
      using False by (simp add: option.map_comp)
  qed
qed

lemma child_at_nth:
  "child_at cs i q = (if i < length cs then node_at (cs ! i) q else None)"
proof (induction cs arbitrary: i)
  case Nil
  then show ?case by simp
next
  case (Cons c cs)
  then show ?case by (cases i) simp_all
qed

lemma node_at_set_blameSegments:
  "q \<noteq> [] \<Longrightarrow> node_at (set_blameSegments segs n) q = node_at n q"
  by (cases n; cases q; cases "children n") (auto simp: set_blameSegments_def)

lemma node_at_blame_file:
  "q \<noteq> [] \<Longrightarrow> node_at (blame_file git n) q = node_at n q"
  using blame_file_cases [of git n] by (auto simp: node_at_set_blameSegments)

lemma node_at_annotate:
  assumes "node_at r q = Some n"
  shows "node_at (annotate git r) q = Some n \<or> node_at (annotate git r) q = Some (annotate git n)"
  using assms
proof (induction q arbitrary: r)
  case Nil
  then show ?case by simp
next
  case (Cons i q)
  obtain nm pth t it lc bs ch where r: "r = FileNode nm pth t it lc bs ch"
    by (cases r)
  show ?case
  proof (cases "t = File")
    case True
    then have "node_at (annotate git r) (i # q) = node_at r (i # q)"
      by (simp add: r node_at_blame_file)
    then show ?thesis using Cons.prems by simp
  next
    case False
    show ?thesis
    proof (cases ch)
      case None
      then show ?thesis using Cons.prems by (simp add: r)
    next
      case (Some cs)
      then have i: "i < length cs" and at: "node_at (cs ! i) q = Some n"
        using Cons.prems by (auto simp: r child_at_nth split: if_splits)
      have "node_at (annotate git r) (i # q) = node_at (annotate git (cs ! i)) q"
        using False Some i by (simp add: r child_at_nth)
      then show ?thesis
        using Cons.IH [OF at] by simp
    qed
  qed
qed

lemma blameSegments_set: "blameSegments (set_blameSegments segs n) = Some segs"
  by (cases n) (simp add: set_blameSegments_def)

lemma blameSegments_annotate:
  "blameSegments (annotate git n) = blameSegments n \<or>
   (ntype n = File \<and> isText n = Some True \<and>
    (\<exists>s ss. getBlameSegments (git (path n)) = Some (s # ss)
            \<and> blameSegments (annotate git n) = Some (s # ss)))"
proof (cases n)
  case (FileNode nm pth t it lc bs ch)
  show ?thesis
  proof (cases "t = File")
    case True
    then show ?thesis
      using blame_file_cases [of git n] by (auto simp: FileNode blameSegments_set)
  next
    case False
    then show ?thesis by (simp add: FileNode)
  qed
qed

text \<open>
  C10. Attribution changes nothing but \<open>blameSegments\<close>: with the segments erased, the
  tree after \<open>addBlameInfo\<close> is the tree before it (same shape, same name, path, type,
  isText, lineCount and children everywhere). The result is the tree in which every file
  node reached through folders has had the loop body applied. At every position the
  segments are the old ones, unless the node is a file with \<open>isText = true\<close> whose blame
  query gave a non-empty segment list, which is then its \<open>blameSegments\<close>.
\<close>

theorem addBlameInfo_frame:
  "forget_blame (addBlameInfo git rootNode) = forget_blame rootNode \<and>
   addBlameInfo git rootNode = annotate git rootNode \<and>
   (\<forall>q n. node_at rootNode q = Some n \<longrightarrow>
      (\<exists>n'. node_at (addBlameInfo git rootNode) q = Some n' \<and>
            (blameSegments n' = blameSegments n \<or>
             (ntype n = File \<and> isText n = Some True \<and>
              (\<exists>s ss. getBlameSegments (git (path n)) = Some (s # ss)
                      \<and> blameSegments n' = Some (s # ss))))))"
proof (intro conjI allI impI)
  show "forget_blame (addBlameInfo git rootNode) = forget_blame rootNode"
    by (simp add: addBlameInfo_annotate forget_blame_annotate)
  show "addBlameInfo git rootNode = annotate git rootNode"
    by (rule addBlameInfo_annotate)
next
  fix q n
  assume "node_at rootNode q = Some n"
  from node_at_annotate [OF this, of git]
  show "\<exists>n'. node_at (addBlameInfo git rootNode) q = Some n' \<and>
            (blameSegments n' = blameSegments n \<or>
             (ntype n = File \<and> isText n = Some True \<and>
              (\<exists>s ss. getBlameSegments (git (path n)) = Some (s # ss)
                      \<and> blameSegments n' = Some (s # ss))))"
    using blameSegments_annotate [of git n]
    by (auto simp: addBlameInfo_annotate)
qed

text \<open>
  A folder with a text file and a binary file, and a blame query that answers for every
  path: the binary file at position 1 stays without segments, the text file at position
  0 gets them.
\<close>

theorem addBlameInfo_frame_witness:
  "node_at
     (FileNode (js ''src'') (js ''/src'') Folder None None None
        (Some [FileNode (js ''a.txt'') (js ''/src/a.txt'') File (Some True) (Some 1) None None,
               FileNode (js ''b.bin'') (js ''/src/b.bin'') File (Some False) None None None]))
     [Suc 0]
   = Some (FileNode (js ''b.bin'') (js ''/src/b.bin'') File (Some False) None None None) \<and>
   (\<exists>n'. node_at
           (addBlameInfo (\<lambda>p. Inr (js ''author X'' @ [0xA, 0x9, 0x61, 0xA]))
              (FileNode (js ''src'') (js ''/src'') Folder None None None
                 (Some [FileNode (js ''a.txt'') (js ''/src/a.txt'') File (Some True) (Some 1) None None,
                        FileNode (js ''b.bin'') (js ''/src/b.bin'') File (Some False) None None None])))
           [Suc 0] = Some n' \<and> blameSegments n' = None) \<and>
   addBlameInfo (\<lambda>p. Inr (js ''author X'' @ [0xA, 0x9, 0x61, 0xA]))
     (FileNode (js ''src'') (js ''/src'') Folder None None None
        (Some [FileNode (js ''a.txt'') (js ''/src/a.txt'') File (Some True) (Some 1) None None,
               FileNode (js ''b.bin'') (js ''/src/b.bin'') File (Some False) None None None]))
   = FileNode (js ''src'') (js ''/src'') Folder None None None
        (Some [FileNode (js ''a.txt'') (js ''/src/a.txt'') File (Some True) (Some 1)
                 (Some [\<lparr>author = js ''X'', lines = 1\<rparr>]) None,
               FileNode (js ''b.bin'') (js ''/src/b.bin'') File (Some False) None None None])"
proof -
  let ?a = "FileNode (js ''a.txt'') (js ''/src/a.txt'') File (Some True) (Some 1) None None"
  let ?b = "FileNode (js ''b.bin'') (js ''/src/b.bin'') File (Some False) None None None"
  let ?t = "FileNode (js ''src'') (js ''/src'') Folder None None None (Some [?a, ?b])"
  let ?git = "\<lambda>p :: jsstring. (Inr (js ''author X'' @ [0xA, 0x9, 0x61, 0xA]) :: exec_error + jsstring)"
  have at: "node_at ?t [Suc 0] = Some ?b"
    by simp
  have parsed: "getBlameSegments (?git p) = Some [\<lparr>author = js ''X'', lines = 1\<rparr>]" for p
    by (simp add: getBlameSegments_def parse_authors_def parse_step_def js_def startsWith_def
        trim_def is_js_space_def segments_of_authors_def)
  have frame: "addBlameInfo ?git ?t = annotate ?git ?t"
    and pos: "\<forall>q n. node_at ?t q = Some n \<longrightarrow>
      (\<exists>n'. node_at (addBlameInfo ?git ?t) q = Some n' \<and>
            (blameSegments n' = blameSegments n \<or>
             (ntype n = File \<and> isText n = Some True \<and>
              (\<exists>s ss. getBlameSegments (?git (path n)) = Some (s # ss)
                      \<and> blameSegments n' = Some (s # ss)))))"
    using addBlameInfo_frame [of ?git ?t] by blast+
  from pos at obtain n' where "node_at (addBlameInfo ?git ?t) [Suc 0] = Some n'"
    and "blameSegments n' = blameSegments ?b \<or> isText ?b = Some True"
    by blast
  then have second: "\<exists>n'. node_at (addBlameInfo ?git ?t) [Suc 0] = Some n' \<and> blameSegments n' = None"
    by auto
  have third: "addBlameInfo ?git ?t
      = FileNode (js ''src'') (js ''/src'') Folder None None None
        (Some [FileNode (js ''a.txt'') (js ''/src/a.txt'') File (Some True) (Some 1)
                 (Some [\<lparr>author = js ''X'', lines = 1\<rparr>]) None, ?b])"
    unfolding frame
    by (simp add: blame_file_def parsed set_blameSegments_def)
  show ?thesis
    using at second third by blast
qed

section \<open>Classification of files\<close>

lemma isTextFile_iff: "isTextFile (Some content) \<longleftrightarrow> 0 \<notin> set (take 8192 content)"
  by (auto simp: isTextFile_def list_all_iff)

lemma file_node_eq:
  "file_node currentPath file =
     FileNode (basename currentPath) (path_string currentPath) File (Some (isTextFile file))
       (case file of
          None \<Rightarrow> None
        | Some content \<Rightarrow> if isTextFile file then Some (line_count_of content) else None)
       None None"
  by (cases "file") (simp_all add: file_node_def Let_def countLines_stream_chunks)

text \<open>Evaluation takes the line count from the content, without cutting it into chunks.\<close>

declare file_node_eq [code]

text \<open>
  C6, as the code has it. A file that can be opened is text exactly when there is no
  zero byte among its first 8192 bytes. A file that cannot be opened is classified as not
  text. Either way a regular file that is not ignored becomes a file node of the tree,
  with that classification as \<open>isText\<close>, and with a line count exactly when it is text.
\<close>

theorem file_classification:
  "(isTextFile (Some content) \<longleftrightarrow> 0 \<notin> set (take 8192 content)) \<and>
   \<not> isTextFile None \<and>
   (\<not> shouldIgnorePath currentPath False ignoreStack \<longrightarrow>
      buildNode h (RegularFile file) currentPath relativePath ignoreStack =
        Some (FileNode (basename currentPath) (path_string currentPath) File
                (Some (isTextFile file))
                (case file of
                   None \<Rightarrow> None
                 | Some content \<Rightarrow>
                     if isTextFile file then Some (line_count_of content) else None)
                None None))"
  by (simp add: isTextFile_iff file_node_eq) (simp add: isTextFile_def)

theorem file_classification_witness:
  "\<not> shouldIgnorePath [js ''repo'', js ''logo.png''] False [] \<and>
   buildNode example_host (RegularFile (Some [137, 80, 0, 71])) [js ''repo'', js ''logo.png'']
       [js ''logo.png''] []
     = Some (FileNode (js ''logo.png'') (js ''/repo/logo.png'') File (Some False) None None None) \<and>
   \<not> isTextFile (Some [137, 80, 0, 71])"
proof -
  have a: "\<not> shouldIgnorePath [js ''repo'', js ''logo.png''] False []"
    by (simp add: shouldIgnorePath_def)
  have b: "\<not> isTextFile (Some [137, 80, 0, 71])"
    using file_classification [of "[137, 80, 0, 71]"] by simp
  have c: "basename [js ''repo'', js ''logo.png''] = js ''logo.png''"
    "path_string [js ''repo'', js ''logo.png''] = js ''/repo/logo.png''"
    by (simp_all add: basename_def path_string_def js_def)
  show ?thesis
    using a b c
      file_classification [of "[137, 80, 0, 71]" "[js ''repo'', js ''logo.png'']" "[]"
        example_host "Some [137, 80, 0, 71]" "[js ''logo.png'']"]
    by simp
qed

text \<open>
  A repository with one file that cannot be opened: the file is in the tree, as a file
  that is not text. It has not been skipped.
\<close>

theorem unreadable_file_in_tree:
  "buildFileTree example_host
     (Directory (Some [(js ''.git'', Directory (Some [])), (js ''locked'', RegularFile None)]))
     [js ''repo''] (js ''ws'')
   = Some (FileNode (js ''ws'') (js ''/repo'') Folder None None None
       (Some [FileNode (js ''locked'') (js ''/repo/locked'') File (Some False)
                None None None]))"
  by code_simp

section \<open>The ignore decision\<close>

lemma join_with_Cons:
  "join_with sep (c # cs) = c @ (if cs = [] then [] else sep @ join_with sep cs)"
  by (cases cs) simp_all

lemma relative_parts_inside:
  "contains_path b p \<Longrightarrow> relative_parts b p = drop (length b) p"
  by (induction b p rule: relative_parts.induct) (auto simp: contains_path_def)

lemma relative_parts_outside:
  "\<not> contains_path b p \<Longrightarrow> \<exists>rest. relative_parts b p = js ''..'' # rest"
  by (induction b p rule: relative_parts.induct) (auto simp: contains_path_def)

lemma relative_outside_dotdot:
  assumes "\<not> contains_path b p"
  shows "startsWith (path_relative b p) (js ''..'')"
proof -
  obtain rest where "relative_parts b p = js ''..'' # rest"
    using relative_parts_outside [OF assms] by blast
  then show ?thesis
    by (simp add: path_relative_def join_with_Cons startsWith_def js_def)
qed

lemma plain_join_no_dotdot:
  assumes "\<forall>c \<in> set cs. plain_name c"
  shows "\<not> startsWith (join_with (js ''/'') cs) (js ''..'')"
proof (cases cs)
  case Nil
  then show ?thesis by (simp add: startsWith_def js_def)
next
  case (Cons c rest)
  then have c: "c \<noteq> []" "\<not> startsWith c (js ''..'')"
    using assms by (auto simp: plain_name_def)
  then obtain a c' where c_eq: "c = a # c'"
    by (cases c) auto
  show ?thesis
  proof (cases c')
    case Nil
    then show ?thesis
      using c_eq Cons by (cases rest) (auto simp: startsWith_def js_def)
  next
    case inner: (Cons a' c'')
    then show ?thesis
      using c_eq Cons c(2)
      by (simp add: join_with_Cons startsWith_def js_def)
  qed
qed

lemma ignore_step_assertion:
  assumes "\<forall>c \<in> set p. plain_name c"
  shows "ignore_step p isDir entry ign =
           (case assertion_of p isDir entry of None \<Rightarrow> ign | Some v \<Rightarrow> v)"
proof (cases "contains_path (base entry) p")
  case False
  then show ?thesis
    by (simp add: ignore_step_def assertion_of_def relative_outside_dotdot)
next
  case True
  have "\<forall>c \<in> set (drop (length (base entry)) p). plain_name c"
    using assms by (meson in_set_dropD)
  then have "\<not> startsWith (path_relative (base entry) p) (js ''..'')"
    by (simp add: path_relative_def relative_parts_inside [OF True] plain_join_no_dotdot)
  then show ?thesis
    using True
    by (simp add: ignore_step_def assertion_of_def relative_for_test_def Let_def
        path_relative_def relative_parts_inside)
qed

lemma ignore_step_outside:
  "\<not> contains_path (base entry) p \<Longrightarrow> ignore_step p isDir entry ign = ign"
  by (simp add: ignore_step_def relative_outside_dotdot)

lemma fold_last_assertion:
  "fold (\<lambda>e ign. case A e of None \<Rightarrow> ign | Some v \<Rightarrow> v) stack ign0 =
     (case filter (\<lambda>a. a \<noteq> None) (map A stack) of
        [] \<Rightarrow> ign0
      | a # as \<Rightarrow> the (last (a # as)))"
proof (induction stack rule: rev_induct)
  case Nil
  then show ?case by simp
next
  case (snoc e stack)
  show ?case
  proof (cases "A e")
    case None
    then show ?thesis using snoc by simp
  next
    case (Some v)
    then show ?thesis
      by (cases "filter (\<lambda>a. a \<noteq> None) (map A stack)") simp_all
  qed
qed

text \<open>
  For paths of plain names the loop is the decision procedure of the specification, and
  for every path an entry that does not contain it can be dropped from the stack.
\<close>

lemma shouldIgnorePath_decision:
  assumes "\<forall>c \<in> set p. plain_name c"
  shows "shouldIgnorePath p isDir stack = ignore_decision p isDir stack"
proof -
  have "ignore_step p isDir = (\<lambda>e ign. case assertion_of p isDir e of None \<Rightarrow> ign | Some v \<Rightarrow> v)"
    by (intro ext) (rule ignore_step_assertion [OF assms])
  then show ?thesis
    by (simp add: shouldIgnorePath_def ignore_decision_def fold_last_assertion)
qed

lemma fold_ignore_step_outside:
  assumes "\<not> contains_path (base entry) p"
  shows "fold (ignore_step p isDir) (s1 @ entry # s2) ign = fold (ignore_step p isDir) (s1 @ s2) ign"
  by (simp add: ignore_step_outside [OF assms])

lemma shouldIgnorePath_outside:
  assumes "\<not> contains_path (base entry) p"
  shows "shouldIgnorePath p isDir (s1 @ entry # s2) = shouldIgnorePath p isDir (s1 @ s2)"
  unfolding shouldIgnorePath_def by (rule fold_ignore_step_outside [OF assms])

lemma shouldIgnorePath_unignore_last:
  assumes "\<forall>c \<in> set p. plain_name c" and "contains_path (base entry) p"
    and "unignored (matcher entry (relative_for_test (base entry) isDir p))"
  shows "\<not> shouldIgnorePath p isDir (stack @ [entry])"
  using assms
  by (simp add: shouldIgnorePath_def ignore_step_assertion assertion_of_def)

text \<open>
  C4 at a file whose name begins with two dots. The rule file of the repository ignores
  \<^verbatim>\<open>..cache\<close>, the rule file of \<^verbatim>\<open>sub\<close> un-ignores it. The entry of \<^verbatim>\<open>sub\<close> contains the path
  \<^verbatim>\<open>/repo/sub/..cache\<close> and its matcher un-ignores the relative path, so the decision of the
  specification is "not ignored"; the loop skips that entry, because the relative path
  begins with two dots, and answers "ignored".
\<close>

theorem shouldIgnorePath_skips_dotdot_name:
  "contains_path [js ''repo'', js ''sub''] [js ''repo'', js ''sub'', js ''..cache''] \<and>
   unignored (name_rules [js ''!..cache'']
      (relative_for_test [js ''repo'', js ''sub''] False [js ''repo'', js ''sub'', js ''..cache''])) \<and>
   \<not> ignore_decision [js ''repo'', js ''sub'', js ''..cache''] False
       [\<lparr>base = [js ''repo''], matcher = name_rules [js ''..cache'']\<rparr>,
        \<lparr>base = [js ''repo'', js ''sub''], matcher = name_rules [js ''!..cache'']\<rparr>] \<and>
   shouldIgnorePath [js ''repo'', js ''sub'', js ''..cache''] False
       [\<lparr>base = [js ''repo''], matcher = name_rules [js ''..cache'']\<rparr>,
        \<lparr>base = [js ''repo'', js ''sub''], matcher = name_rules [js ''!..cache'']\<rparr>]"
  by code_simp

text \<open>
  The same in the walk of a repository: of the two un-ignored files of \<^verbatim>\<open>sub\<close> the tree
  has \<^verbatim>\<open>cache\<close> and lacks \<^verbatim>\<open>..cache\<close>.
\<close>

lemma dotdot_name_dropped_from_tree:
  "buildFileTree example_host dotdot_repo [js ''repo''] (js ''ws'') =
     Some (FileNode (js ''ws'') (js ''/repo'') Folder None None None
       (Some [FileNode (js ''sub'') (js ''/repo/sub'') Folder None None None
                (Some [FileNode (js ''.gitignore'') (js ''/repo/sub/.gitignore'') File
                         (Some True) (Some 2) None None,
                       FileNode (js ''cache'') (js ''/repo/sub/cache'') File
                         (Some True) (Some 1) None None]),
              FileNode (js ''.gitignore'') (js ''/repo/.gitignore'') File
                (Some True) (Some 2) None None]))"
  by code_simp

section \<open>Author colours\<close>

lemma hash_step_sint: "sint (hash_step c h) = wrap32 (sint h * 31 + uint c)"
proof -
  have "(ucast c :: 32 word) = word_of_int (uint c)"
    by (fact ucast_eq)
  moreover have "h = word_of_int (sint h)"
    by simp
  ultimately have "h * 31 + ucast c = (word_of_int (sint h * 31 + uint c) :: 32 word)"
    by (metis (no_types) of_int_add of_int_mult of_int_numeral)
  then have "sint (hash_step c h) = sint (word_of_int (sint h * 31 + uint c) :: 32 word)"
    unfolding hash_step_def by (simp only:)
  also have "\<dots> = wrap32 (sint h * 31 + uint c)"
    unfolding wrap32_def int_word_sint by simp
  finally show ?thesis .
qed

lemma fold_hash_step_sint:
  "sint (fold hash_step a h) = fold (\<lambda>c z. wrap32 (z * 31 + uint c)) a (sint h)"
  by (induction a arbitrary: h) (simp_all add: hash_step_sint)

lemma author_hash_sint: "sint (author_hash a) = int_hash a"
  by (simp add: author_hash_def int_hash_def fold_hash_step_sint)

lemma hue_of_int_hash: "int (hue_of a) = \<bar>int_hash a\<bar> mod 360 \<and> hue_of a < 360"
  by (simp add: hue_of_def author_hash_sint nat_less_iff)

text \<open>
  For a name that no object inherits: a mapped value that is not the empty string is
  returned as it is; without a mapped value the colour is \<^verbatim>\<open>hsl(hue, 55%, 45%)\<close>, where the
  hue is \<open>\<bar>hash\<bar> mod 360\<close> and the hash is \<open>hash * 31 + charCode\<close> over the code units of
  the name, wrapped to signed 32 bits at each step.
\<close>

lemma colorForAuthor_other_names:
  assumes "a \<notin> set object_prototype_names"
  shows "authorColors a = Some v \<Longrightarrow> v \<noteq> [] \<Longrightarrow> colorForAuthor authorColors a = Str v"
    and "authorColors a = None \<Longrightarrow>
           colorForAuthor authorColors a = Str (js ''hsl('' @ decimal (hue_of a) @ js '', 55%, 45%)'')"
    and "authorColors a = Some [] \<Longrightarrow>
           colorForAuthor authorColors a = Str (js ''hsl('' @ decimal (hue_of a) @ js '', 55%, 45%)'')"
proof -
  have p: "a \<noteq> js ''__proto__''"
    using assms by (auto simp: object_prototype_names_def)
  show "authorColors a = Some v \<Longrightarrow> v \<noteq> [] \<Longrightarrow> colorForAuthor authorColors a = Str v"
    using p by (simp add: colorForAuthor_def object_literal_def get_property_def truthy_def)
  show "authorColors a = None \<Longrightarrow>
           colorForAuthor authorColors a = Str (js ''hsl('' @ decimal (hue_of a) @ js '', 55%, 45%)'')"
    using p assms
    by (simp add: colorForAuthor_def object_literal_def get_property_def generated_color_def)
  show "authorColors a = Some [] \<Longrightarrow>
           colorForAuthor authorColors a = Str (js ''hsl('' @ decimal (hue_of a) @ js '', 55%, 45%)'')"
    using p
    by (simp add: colorForAuthor_def object_literal_def get_property_def truthy_def
        generated_color_def)
qed

lemma colorForAuthor_alice:
  "colorForAuthor (Map.empty(js ''alice'' \<mapsto> js ''#ff0000'')) (js ''alice'') = Str (js ''#ff0000'') \<and>
   colorForAuthor Map.empty (js ''alice'') = Str (js ''hsl(0, 55%, 45%)'') \<and>
   int_hash (js ''alice'') = 92903040"
proof -
  have s: "sint (author_hash (js ''alice'')) = 92903040"
    by (simp add: author_hash_def hash_step_def js_def)
  have h: "hue_of (js ''alice'') = 0"
    by (simp add: hue_of_def s)
  have d: "js ''hsl('' @ decimal 0 @ js '', 55%, 45%)'' = js ''hsl(0, 55%, 45%)''"
    by (simp add: js_def decimal.simps)
  have n: "js ''alice'' \<notin> set object_prototype_names"
    by (simp add: object_prototype_names_def js_def)
  have ne: "js ''#ff0000'' \<noteq> []"
    by (simp add: js_def)
  have "colorForAuthor (Map.empty(js ''alice'' \<mapsto> js ''#ff0000'')) (js ''alice'') = Str (js ''#ff0000'')"
    using colorForAuthor_other_names(1) [OF n, of "Map.empty(js ''alice'' \<mapsto> js ''#ff0000'')" "js ''#ff0000''"] ne
    by simp
  moreover have "colorForAuthor Map.empty (js ''alice'') = Str (js ''hsl(0, 55%, 45%)'')"
    using colorForAuthor_other_names(2) [OF n, of Map.empty] h d by simp
  moreover have "int_hash (js ''alice'') = 92903040"
    using s author_hash_sint [of "js ''alice''"] by simp
  ultimately show ?thesis by simp
qed

lemma ensure_step_inherited:
  "a \<in> set object_prototype_names \<Longrightarrow> colors a = None \<Longrightarrow> ensure_step a colors = colors"
  by (simp add: ensure_step_def get_property_def truthy_def)

lemma proto_inherited: "js ''__proto__'' \<in> set object_prototype_names"
  by (simp add: object_prototype_names_def)

lemma colorForAuthor_inherited:
  "a \<in> set object_prototype_names \<Longrightarrow> authorColors a = None \<Longrightarrow>
     colorForAuthor authorColors a = Inherited a"
  using proto_inherited
  by (simp add: colorForAuthor_def object_literal_def get_property_def truthy_def)

text \<open>
  C9, at an author whose name is a member of every object. The stored map is empty and a
  blamed line has the author \<^verbatim>\<open>constructor\<close>. \<^verbatim>\<open>ensureAuthorColors\<close> reads
  \<^verbatim>\<open>colors["constructor"]\<close>, finds the inherited function and adds no entry, so the map
  handed to the web view does not contain the author. There \<^verbatim>\<open>colorForAuthor\<close> reads
  \<^verbatim>\<open>authorColors["constructor"]\<close>, finds the inherited function again and returns it. The
  colour derived from the hash, \<^verbatim>\<open>hsl(238, 55%, 45%)\<close>, is not returned.
\<close>

theorem colorForAuthor_inherited_name:
  "ensureAuthorColors Map.empty [js ''constructor''] (js ''constructor'') = None \<and>
   colorForAuthor (ensureAuthorColors Map.empty [js ''constructor'']) (js ''constructor'')
     = Inherited (js ''constructor'') \<and>
   int_hash (js ''constructor'') = - 1588406278 \<and>
   hue_of (js ''constructor'') = 238 \<and>
   generated_color (js ''constructor'') = js ''hsl(238, 55%, 45%)'' \<and>
   colorForAuthor (ensureAuthorColors Map.empty [js ''constructor'']) (js ''constructor'')
     \<noteq> Str (generated_color (js ''constructor''))"
proof -
  have n: "js ''constructor'' \<in> set object_prototype_names"
    by (simp add: object_prototype_names_def)
  have e: "ensureAuthorColors Map.empty [js ''constructor''] = Map.empty"
    by (simp add: ensureAuthorColors_def ensure_step_inherited [OF n])
  have s: "sint (author_hash (js ''constructor'')) = - 1588406278"
    by (simp add: author_hash_def hash_step_def js_def)
  have h: "hue_of (js ''constructor'') = 238"
    by (simp add: hue_of_def s)
  have g: "generated_color (js ''constructor'') = js ''hsl(238, 55%, 45%)''"
    by (simp add: generated_color_def h) (simp add: js_def decimal.simps)
  have i: "int_hash (js ''constructor'') = - 1588406278"
    using s author_hash_sint [of "js ''constructor''"] by simp
  show ?thesis
    by (simp add: e colorForAuthor_inherited [OF n] i h g)
qed

section \<open>The cache without storage\<close>

lemma showFileTree_no_storage:
  assumes "storageUri context = None"
  shows "showFileTree h j context repo st = (Thrown StorageNotAvailable, st)"
  using assms by (simp add: showFileTree_def new_CacheManager_def)

lemma showFileTree_missing_dir:
  assumes "storageUri context = Some uri" and "\<not> dir_exists st" and "\<not> can_create st"
  shows "showFileTree h j context repo st =
           ((case buildFileTree h (workspace repo) (workspacePath repo) (workspaceName repo) of
               None \<Rightarrow> ErrorPage
             | Some built \<Rightarrow> Shown (addBlameInfo (blame repo) built)), st)"
  using assms
  by (simp add: showFileTree_def new_CacheManager_def ensureStorageDir_def getBlameCache_def
      saveBlameCache_def Let_def split: option.splits)

lemma showFileTree_not_thrown:
  assumes "storageUri context = Some uri"
  shows "fst (showFileTree h j context repo st) \<noteq> Thrown e"
  using assms
  by (simp add: showFileTree_def new_CacheManager_def Let_def split: option.splits prod.splits)

text \<open>
  C8, as the code has it. Without a storage uri the constructor of the cache manager
  throws, and the command ends by that exception: the cache manager is created before
  the \<^verbatim>\<open>try\<close> block. With a storage uri the command never ends by an exception; if the
  storage directory is missing and cannot be created, every lookup is a miss, a store
  changes nothing, and the command shows the freshly built and attributed tree (or the
  error page when no tree can be built).
\<close>

theorem cache_unavailable:
  "(storageUri context = None \<longrightarrow>
      new_CacheManager context st = Inl StorageNotAvailable \<and>
      showFileTree h j context repo st = (Thrown StorageNotAvailable, st)) \<and>
   (storageUri context = Some uri \<longrightarrow>
      new_CacheManager context st = Inr (\<lparr>cm_storageUri = uri\<rparr>, ensureStorageDir st) \<and>
      (\<forall>e. fst (showFileTree h j context repo st) \<noteq> Thrown e) \<and>
      (\<not> dir_exists st \<and> \<not> can_create st \<longrightarrow>
         getBlameCache j \<lparr>cm_storageUri = uri\<rparr> (ensureStorageDir st) hash = None \<and>
         saveBlameCache j \<lparr>cm_storageUri = uri\<rparr> (ensureStorageDir st) hash tree = st \<and>
         showFileTree h j context repo st =
           ((case buildFileTree h (workspace repo) (workspacePath repo) (workspaceName repo) of
               None \<Rightarrow> ErrorPage
             | Some built \<Rightarrow> Shown (addBlameInfo (blame repo) built)), st)))"
proof (intro conjI impI allI)
  assume none: "storageUri context = None"
  show "new_CacheManager context st = Inl StorageNotAvailable"
    using none by (simp add: new_CacheManager_def)
  show "showFileTree h j context repo st = (Thrown StorageNotAvailable, st)"
    by (rule showFileTree_no_storage [OF none])
next
  assume some: "storageUri context = Some uri"
  show "new_CacheManager context st = Inr (\<lparr>cm_storageUri = uri\<rparr>, ensureStorageDir st)"
    using some by (simp add: new_CacheManager_def)
  show "fst (showFileTree h j context repo st) \<noteq> Thrown e" for e
    by (rule showFileTree_not_thrown [OF some])
  assume missing: "\<not> dir_exists st \<and> \<not> can_create st"
  show "getBlameCache j \<lparr>cm_storageUri = uri\<rparr> (ensureStorageDir st) hash = None"
    using missing by (simp add: getBlameCache_def ensureStorageDir_def)
  show "saveBlameCache j \<lparr>cm_storageUri = uri\<rparr> (ensureStorageDir st) hash tree = st"
    using missing by (simp add: saveBlameCache_def ensureStorageDir_def)
  show "showFileTree h j context repo st =
           ((case buildFileTree h (workspace repo) (workspacePath repo) (workspaceName repo) of
               None \<Rightarrow> ErrorPage
             | Some built \<Rightarrow> Shown (addBlameInfo (blame repo) built)), st)"
    using some missing by (simp add: showFileTree_missing_dir)
qed

text \<open>
  The example repository with a storage uri whose directory is missing and cannot be
  created: the tree is shown and the storage is as before.
\<close>

theorem cache_unavailable_witness:
  "storageUri \<lparr>storageUri = Some (js ''/store'')\<rparr> = Some (js ''/store'') \<and>
   \<not> dir_exists \<lparr>dir_exists = False, can_create = False, cache_files = Map.empty\<rparr> \<and>
   \<not> can_create \<lparr>dir_exists = False, can_create = False, cache_files = Map.empty\<rparr> \<and>
   showFileTree example_host example_json \<lparr>storageUri = Some (js ''/store'')\<rparr> example_repo
       \<lparr>dir_exists = False, can_create = False, cache_files = Map.empty\<rparr>
     = (Shown example_tree,
        \<lparr>dir_exists = False, can_create = False, cache_files = Map.empty\<rparr>)"
proof -
  let ?st = "\<lparr>dir_exists = False, can_create = False, cache_files = Map.empty\<rparr>
               :: storage"
  have shown: "(case buildFileTree example_host (workspace example_repo)
                       (workspacePath example_repo) (workspaceName example_repo) of
                  None \<Rightarrow> ErrorPage
                | Some built \<Rightarrow> Shown (addBlameInfo (blame example_repo) built))
               = Shown example_tree"
    by code_simp
  show ?thesis
    using cache_unavailable [of "\<lparr>storageUri = Some (js ''/store'')\<rparr>" ?st example_host
        example_json example_repo "js ''/store''"]
    by (simp add: shown)
qed

text \<open>
  The same repository without a storage uri: the command ends by the exception of the
  constructor and shows no tree.
\<close>

theorem no_storage_aborts:
  "showFileTree example_host example_json \<lparr>storageUri = None\<rparr> example_repo
       \<lparr>dir_exists = False, can_create = False, cache_files = Map.empty\<rparr>
     = (Thrown StorageNotAvailable,
        \<lparr>dir_exists = False, can_create = False, cache_files = Map.empty\<rparr>)"
  by (simp add: showFileTree_def new_CacheManager_def)

section \<open>Packing always places every rectangle\<close>

lemma find_best_range:
  assumes "find_best r frs i best = Some (k, s)"
  shows "best = Some (k, s) \<or> (i \<le> k \<and> k < i + length frs)"
  using assms
proof (induction frs arbitrary: i best)
  case Nil
  then show ?case by simp
next
  case (Cons fr frs)
  let ?best = "if width r \<le> width fr \<and> height r \<le> height fr then
          let leftoverX = width fr - width r;
              leftoverY = height fr - height r;
              score = min leftoverX leftoverY
          in (case best of
                None \<Rightarrow> Some (i, score)
              | Some (bestIndex, bestScore) \<Rightarrow>
                  if score < bestScore then Some (i, score) else best)
        else best"
  from Cons.prems have "find_best r frs (i + 1) ?best = Some (k, s)"
    by simp
  from Cons.IH [OF this] show ?case
    by (auto simp: Let_def split: if_splits option.splits)
qed

lemma find_best_in_range:
  assumes "find_best r frs 0 None = Some (k, s)"
  shows "k < length frs"
  using find_best_range [OF assms] by simp

lemma size_of_placed:
  "size_of \<lparr>width = width (r :: dims), height = height r, px = a, py = b\<rparr> = r"
  by (simp add: size_of_def)

lemma place_rect_places:
  "\<exists>frs' p. place_rect targetWidth totalHeight r (frs, pl) = Inr (frs', pl @ [p])
            \<and> size_of p = r"
proof (cases "find_best r frs 0 None")
  case None
  then show ?thesis
    by (simp add: place_rect_def Let_def size_of_placed)
next
  case (Some a)
  obtain k s where a: "a = (k, s)" by (cases a)
  have "k < length frs"
    using Some find_best_in_range [of r frs k s] by (simp add: a)
  then show ?thesis
    using Some by (simp add: place_rect_def Let_def a size_of_placed)
qed

lemma place_all_places:
  "\<exists>frs' ps. place_all targetWidth totalHeight rs (frs, pl) = Inr (frs', pl @ ps)
             \<and> map size_of ps = rs"
proof (induction rs arbitrary: frs pl)
  case Nil
  then show ?case by simp
next
  case (Cons r rs)
  obtain frs1 p where step: "place_rect targetWidth totalHeight r (frs, pl) = Inr (frs1, pl @ [p])"
    and p: "size_of p = r"
    using place_rect_places by blast
  obtain frs' ps where rest: "place_all targetWidth totalHeight rs (frs1, pl @ [p])
      = Inr (frs', (pl @ [p]) @ ps)" and ps: "map size_of ps = rs"
    using Cons.IH by blast
  have "place_all targetWidth totalHeight (r # rs) (frs, pl) = Inr (frs', pl @ (p # ps))"
    by (simp add: step rest)
  moreover have "map size_of (p # ps) = r # rs"
    by (simp add: p ps)
  ultimately show ?case
    by (intro exI [of _ frs'] exI [of _ "p # ps"] conjI)
qed

lemma count_list_insert_by:
  "count_list (insert_by cmp v ws) r = count_list (v # ws) r"
  by (induction ws) auto

lemma count_list_foldl_insert_by:
  "count_list (foldl (\<lambda>acc v. insert_by cmp v acc) acc vs) r
     = count_list acc r + count_list vs r"
  by (induction vs arbitrary: acc) (auto simp: count_list_insert_by)

lemma count_list_sort_by: "count_list (sort_by cmp vs) r = count_list vs r"
  by (simp add: sort_by_def count_list_foldl_insert_by)

lemma length_insert_by: "length (insert_by cmp v ws) = Suc (length ws)"
  by (induction ws) auto

lemma length_foldl_insert_by:
  "length (foldl (\<lambda>acc v. insert_by cmp v acc) acc vs) = length acc + length vs"
  by (induction vs arbitrary: acc) (auto simp: length_insert_by)

lemma length_sort_by: "length (sort_by cmp vs) = length vs"
  by (simp add: sort_by_def length_foldl_insert_by)

text \<open>
  C7. For every list of rectangles and every target width the packing returns: the
  type error of reading a free region outside the array cannot happen, because a
  rectangle that fits no free region gets a new region appended and is placed there. The
  placed rectangles are the given rectangles in sorted order, each with a position; so
  there are as many as given, and each given rectangle is placed as often as it occurs.
\<close>

theorem packMaxRects_total:
  "\<exists>res. packMaxRects rects targetWidth = Inr res \<and>
         map size_of (placed res) = sort_by by_max_side rects \<and>
         length (placed res) = length rects \<and>
         (\<forall>r. count_list (map size_of (placed res)) r = count_list rects r)"
proof -
  let ?H = "fold (\<lambda>r s. s + height r) rects 0 + real (length rects) * gap"
  let ?free = "[\<lparr>width = targetWidth, height = ?H, px = 0, py = 0\<rparr>]"
  obtain frs' ps where run: "place_all targetWidth ?H (sort_by by_max_side rects) (?free, [])
      = Inr (frs', [] @ ps)" and ps: "map size_of ps = sort_by by_max_side rects"
    using place_all_places by blast
  let ?res = "\<lparr>width = fold (\<lambda>r m. max m (px r + width r)) ps 0,
               height = fold (\<lambda>r m. max m (py r + height r)) ps 0,
               placed = ps\<rparr>"
  have "packMaxRects rects targetWidth = Inr ?res"
    using run by (simp add: packMaxRects_def Let_def)
  moreover have "length (placed ?res) = length rects"
    using ps length_sort_by [of by_max_side rects] by (metis length_map packing.select_convs(1))
  moreover have "\<forall>r. count_list (map size_of (placed ?res)) r = count_list rects r"
    by (simp add: ps count_list_sort_by)
  ultimately show ?thesis
    using ps by (intro exI [of _ ?res]) simp
qed

section \<open>Packing below the width of the rectangles\<close>

lemma sqrt_1920: "sqrt 1920 < 80" "sqrt 1920 \<noteq> 0"
proof -
  have "sqrt 1920 < sqrt (80\<^sup>2)"
    by (rule real_sqrt_less_mono) simp
  then show "sqrt 1920 < 80" by simp
  show "sqrt 1920 \<noteq> 0" by simp
qed

text \<open>
  C2 at a folder with two files of twelve lines, that is two rectangles of 80 by 12. The
  first target width tried is 56; no free region is 80 wide, so each rectangle goes to
  the region appended at \<open>y = totalHeight = 32\<close>. Both are placed at \<open>(0, 32)\<close>: they
  overlap.
\<close>

theorem packMaxRects_overlap:
  "candidate_widths [\<lparr>width = 80, height = 12\<rparr>, \<lparr>width = 80, height = 12\<rparr>]
     = [56, 68, 80, 96, 120, 160] \<and>
   packMaxRects [\<lparr>width = 80, height = 12\<rparr>, \<lparr>width = 80, height = 12\<rparr>] 56
     = Inr \<lparr>width = 80, height = 44,
            placed = [\<lparr>width = 80, height = 12, px = 0, py = 32\<rparr>,
                      \<lparr>width = 80, height = 12, px = 0, py = 32\<rparr>]\<rparr> \<and>
   overlap \<lparr>width = 80, height = 12, px = 0, py = 32\<rparr>
           \<lparr>width = 80, height = 12, px = 0, py = 32\<rparr>"
proof -
  have "candidate_widths [\<lparr>width = 80, height = 12\<rparr>, \<lparr>width = 80, height = 12\<rparr>]
     = [56, 68, 80, 96, 120, 160]"
    using sqrt_1920 by (simp add: candidate_widths_def max_def)
  moreover have "packMaxRects [\<lparr>width = 80, height = 12\<rparr>, \<lparr>width = 80, height = 12\<rparr>] 56
     = Inr \<lparr>width = 80, height = 44,
            placed = [\<lparr>width = 80, height = 12, px = 0, py = 32\<rparr>,
                      \<lparr>width = 80, height = 12, px = 0, py = 32\<rparr>]\<rparr>"
    by code_simp
  moreover have "overlap \<lparr>width = 80, height = 12, px = 0, py = 32\<rparr>
           \<lparr>width = 80, height = 12, px = 0, py = 32\<rparr>"
    by (simp add: overlap_def)
  ultimately show ?thesis by blast
qed

text \<open>
  The other half of C2 holds: when no rectangle has a negative side, every placed
  rectangle lies in the quadrant of non-negative coordinates, so the extent of the packing
  is at least as wide and as high as each placed rectangle.
\<close>

lemma set_remove_nth: "set (remove_nth i xs) \<subseteq> set xs"
  unfolding remove_nth_def using set_take_subset [of i xs] set_drop_subset [of "Suc i" xs]
  by auto

lemma set_prune_loop: "set (prune_loop i frs) \<subseteq> set frs"
proof (induction i arbitrary: frs)
  case 0
  then show ?case by simp
next
  case (Suc i)
  let ?frs = "if list_ex (\<lambda>j. j \<noteq> i \<and> contained_in (frs ! i) (frs ! j)) [0..<length frs]
        then remove_nth i frs else frs"
  have "set (prune_loop (Suc i) frs) \<subseteq> set ?frs"
    using Suc.IH [of ?frs] by simp
  also have "\<dots> \<subseteq> set frs"
    using set_remove_nth [of i frs] by auto
  finally show ?case .
qed

lemma set_pruneFreeRects: "set (pruneFreeRects frs) \<subseteq> set frs"
  unfolding pruneFreeRects_def by (rule set_prune_loop)

lemma place_rect_quadrant:
  assumes "place_rect targetWidth totalHeight r (frs, pl) = Inr (frs', pl')"
    and "0 \<le> width r" and "0 \<le> height r" and "0 \<le> totalHeight"
    and "\<forall>f \<in> set frs. in_quadrant f" and "\<forall>p \<in> set pl. in_quadrant p"
  shows "(\<forall>f \<in> set frs'. in_quadrant f) \<and> (\<forall>p \<in> set pl'. in_quadrant p)"
proof -
  define ext where "ext = \<lparr>width = targetWidth, height = height r + gap, px = 0, py = totalHeight\<rparr>"
  define frs1 where "frs1 = (case find_best r frs 0 None of None \<Rightarrow> frs @ [ext] | Some (i, s) \<Rightarrow> frs)"
  define k where "k = (case find_best r frs 0 None of None \<Rightarrow> length frs | Some (i, s) \<Rightarrow> i)"
  define target where "target = frs1 ! k"
  define frs3 where "frs3 = remove_nth k frs1 @ remainders r target"
  have unfolded: "place_rect targetWidth totalHeight r (frs, pl) =
      (if k < length frs1
       then Inr (pruneFreeRects frs3,
                 pl @ [\<lparr>width = width r, height = height r, px = px target, py = py target\<rparr>])
       else Inl TypeError)"
    by (simp add: place_rect_def Let_def frs1_def k_def target_def frs3_def ext_def
        split: option.splits)
  then have k: "k < length frs1"
    and frs': "frs' = pruneFreeRects frs3"
    and pl': "pl' = pl @ [\<lparr>width = width r, height = height r, px = px target, py = py target\<rparr>]"
    using assms(1) by (auto split: if_splits)
  have q1: "\<forall>f \<in> set frs1. in_quadrant f"
    using assms(4,5) by (auto simp: frs1_def ext_def in_quadrant_def split: option.splits)
  then have t: "in_quadrant target"
    using k by (simp add: target_def)
  have "in_quadrant (right_of r target)" "in_quadrant (bottom_of r target)"
    using t assms(2,3) by (simp_all add: right_of_def bottom_of_def in_quadrant_def gap_def)
  then have "\<forall>f \<in> set (remainders r target). in_quadrant f"
    by (auto simp: remainders_def Let_def)
  then have "\<forall>f \<in> set frs3. in_quadrant f"
    using q1 set_remove_nth [of k frs1] by (auto simp: frs3_def)
  then have "\<forall>f \<in> set frs'. in_quadrant f"
    using set_pruneFreeRects [of frs3] by (auto simp: frs')
  moreover have "\<forall>p \<in> set pl'. in_quadrant p"
    using assms(6) t by (auto simp: pl' in_quadrant_def)
  ultimately show ?thesis by blast
qed

lemma place_all_quadrant:
  assumes "place_all targetWidth totalHeight rs (frs, pl) = Inr (frs', pl')"
    and "\<forall>r \<in> set rs. 0 \<le> width r \<and> 0 \<le> height r" and "0 \<le> totalHeight"
    and "\<forall>f \<in> set frs. in_quadrant f" and "\<forall>p \<in> set pl. in_quadrant p"
  shows "\<forall>p \<in> set pl'. in_quadrant p"
  using assms
proof (induction rs arbitrary: frs pl)
  case Nil
  then show ?case by simp
next
  case (Cons r rs)
  obtain frs1 pl1 where step: "place_rect targetWidth totalHeight r (frs, pl) = Inr (frs1, pl1)"
    using Cons.prems(1) by (auto split: sum.splits)
  have q: "(\<forall>f \<in> set frs1. in_quadrant f) \<and> (\<forall>p \<in> set pl1. in_quadrant p)"
    by (rule place_rect_quadrant [OF step]) (use Cons.prems in auto)
  have "place_all targetWidth totalHeight rs (frs1, pl1) = Inr (frs', pl')"
    using Cons.prems(1) step by simp
  from Cons.IH [OF this] show ?case
    using Cons.prems q by auto
qed

lemma fold_max_ge_init: "m \<le> fold (\<lambda>r m. max m (f r)) ps (m :: real)"
  by (induction ps arbitrary: m) (auto intro: order_trans [OF max.cobounded1])

lemma fold_max_ge_member:
  "p \<in> set ps \<Longrightarrow> f p \<le> fold (\<lambda>r m. max m (f r)) ps (m :: real)"
proof (induction ps arbitrary: m)
  case Nil
  then show ?case by simp
next
  case (Cons q ps)
  show ?case
  proof (cases "p = q")
    case True
    have "f q \<le> max m (f q)" by simp
    also have "\<dots> \<le> fold (\<lambda>r m. max m (f r)) ps (max m (f q))"
      by (rule fold_max_ge_init)
    finally show ?thesis using True by simp
  next
    case False
    then show ?thesis using Cons by simp
  qed
qed

lemma fold_heights_nonneg:
  "\<forall>r \<in> set rs. 0 \<le> height (r :: dims) \<Longrightarrow> 0 \<le> s \<Longrightarrow> 0 \<le> fold (\<lambda>r s. s + height r) rs s"
  by (induction rs arbitrary: s) simp_all

lemma set_insert_by: "set (insert_by cmp v ws) = insert v (set ws)"
  by (induction ws) auto

lemma set_foldl_insert_by:
  "set (foldl (\<lambda>acc v. insert_by cmp v acc) acc vs) = set acc \<union> set vs"
  by (induction vs arbitrary: acc) (auto simp: set_insert_by)

lemma set_sort_by: "set (sort_by cmp vs) = set vs"
  by (simp add: sort_by_def set_foldl_insert_by)

lemma packMaxRects_bounding_box:
  assumes "packMaxRects rects targetWidth = Inr res"
    and "\<forall>r \<in> set rects. 0 \<le> width r \<and> 0 \<le> height r"
    and "p \<in> set (placed res)"
  shows "width p \<le> width res \<and> height p \<le> height res"
proof -
  let ?H = "fold (\<lambda>r s. s + height r) rects 0 + real (length rects) * gap"
  let ?free = "[\<lparr>width = targetWidth, height = ?H, px = 0, py = 0\<rparr>]"
  obtain frs' ps where run: "place_all targetWidth ?H (sort_by by_max_side rects) (?free, [])
      = Inr (frs', ps)"
    and res: "res = \<lparr>width = fold (\<lambda>r m. max m (px r + width r)) ps 0,
                     height = fold (\<lambda>r m. max m (py r + height r)) ps 0,
                     placed = ps\<rparr>"
    using assms(1) by (auto simp: packMaxRects_def Let_def split: sum.splits)
  have H: "0 \<le> ?H"
    using fold_heights_nonneg [of rects 0] assms(2) by (simp add: gap_def)
  have "\<forall>q \<in> set ps. in_quadrant q"
    by (rule place_all_quadrant [OF run])
       (use assms(2) H in \<open>auto simp: set_sort_by in_quadrant_def\<close>)
  then have q: "0 \<le> px p" "0 \<le> py p" and mem: "p \<in> set ps"
    using assms(3) by (auto simp: res in_quadrant_def)
  have "px p + width p \<le> width res" "py p + height p \<le> height res"
    using fold_max_ge_member [OF mem, of "\<lambda>r. px r + width r" 0]
      fold_max_ge_member [OF mem, of "\<lambda>r. py r + height r" 0]
    by (simp_all add: res)
  then show ?thesis
    using q by simp
qed

section \<open>Packing at a target width that every rectangle fits\<close>

text \<open>
  When no rectangle is wider than the target width, the extension branch is never taken
  and no two placed rectangles overlap. The free regions stay apart from each other and
  from the placed rectangles, and one free region is always as wide as the target and
  high enough for all rectangles still to be placed.
\<close>

lemma apart_sym: "apart a b \<Longrightarrow> apart b a"
  by (auto simp: apart_def overlap_def)

lemma apart_contained:
  assumes "apart x t" and "contained_in a t"
  shows "apart x a"
  using assms by (auto simp: apart_def overlap_def contained_in_def)

lemma contained_in_refl: "contained_in a a"
  by (simp add: contained_in_def)

lemma contained_in_trans: "contained_in a b \<Longrightarrow> contained_in b c \<Longrightarrow> contained_in a c"
  by (auto simp: contained_in_def)

lemma nth_in_remove_nth:
  assumes "j < length xs" and "j \<noteq> i"
  shows "xs ! j \<in> set (remove_nth i xs)"
proof (cases "j < i")
  case True
  have "take i xs ! j \<in> set (take i xs)"
    by (rule nth_mem) (use True assms(1) in simp)
  then have "xs ! j \<in> set (take i xs)"
    using True by simp
  then show ?thesis by (simp add: remove_nth_def)
next
  case False
  then have le: "Suc i \<le> j" using assms(2) by simp
  have "drop (Suc i) xs ! (j - Suc i) \<in> set (drop (Suc i) xs)"
    by (rule nth_mem) (use le assms(1) in simp)
  moreover have "drop (Suc i) xs ! (j - Suc i) = xs ! j"
    using le assms(1) by simp
  ultimately show ?thesis by (simp add: remove_nth_def)
qed

lemma mem_remove_nth:
  assumes "x \<in> set xs" and "x \<noteq> xs ! i"
  shows "x \<in> set (remove_nth i xs)"
proof -
  obtain j where "j < length xs" "xs ! j = x"
    using assms(1) by (auto simp: in_set_conv_nth)
  moreover from this assms(2) have "j \<noteq> i" by auto
  ultimately show ?thesis
    using nth_in_remove_nth [of j xs i] by simp
qed

lemma sorted_wrt_remove_nth:
  assumes "sorted_wrt P xs"
  shows "sorted_wrt P (remove_nth i xs)"
proof -
  have "sorted_wrt P (take i xs @ drop i xs)"
    using assms by simp
  then have "sorted_wrt P (take i xs)" and "sorted_wrt P (drop i xs)"
    and cross: "\<forall>x \<in> set (take i xs). \<forall>y \<in> set (drop i xs). P x y"
    unfolding sorted_wrt_append by auto
  moreover have "sorted_wrt P (drop (Suc i) xs)"
    using assms by (rule sorted_wrt_drop)
  moreover have "set (drop (Suc i) xs) \<subseteq> set (drop i xs)"
    using set_drop_subset [of 1 "drop i xs"] by simp
  ultimately show ?thesis
    unfolding remove_nth_def sorted_wrt_append by auto
qed

lemma apart_from_removed:
  assumes "sorted_wrt apart xs" and "k < length xs" and "x \<in> set (remove_nth k xs)"
  shows "apart x (xs ! k)"
proof -
  have "xs = take k xs @ xs ! k # drop (Suc k) xs"
    using assms(2) by (rule id_take_nth_drop)
  then have "sorted_wrt apart (take k xs @ xs ! k # drop (Suc k) xs)"
    using assms(1) by simp
  then have "\<forall>a \<in> set (take k xs). apart a (xs ! k)"
    and "\<forall>b \<in> set (drop (Suc k) xs). apart (xs ! k) b"
    unfolding sorted_wrt_append by auto
  then show ?thesis
    using assms(3) by (auto simp: remove_nth_def intro: apart_sym)
qed

lemma sorted_wrt_prune_loop:
  "sorted_wrt P frs \<Longrightarrow> sorted_wrt P (prune_loop i frs)"
  by (induction i arbitrary: frs) (simp_all add: sorted_wrt_remove_nth)

lemma prune_loop_covers:
  assumes "a \<in> set frs"
  shows "\<exists>b \<in> set (prune_loop i frs). contained_in a b"
  using assms
proof (induction i arbitrary: frs a)
  case 0
  then show ?case using contained_in_refl by auto
next
  case (Suc i)
  let ?ex = "list_ex (\<lambda>j. j \<noteq> i \<and> contained_in (frs ! i) (frs ! j)) [0..<length frs]"
  let ?frs = "if ?ex then remove_nth i frs else frs"
  have "\<exists>a' \<in> set ?frs. contained_in a a'"
  proof (cases "?ex \<and> a = frs ! i")
    case True
    then obtain j where "j < length frs" "j \<noteq> i" "contained_in (frs ! i) (frs ! j)"
      by (auto simp: list_ex_iff)
    then show ?thesis
      using True nth_in_remove_nth [of j frs i] by auto
  next
    case False
    then have "a \<in> set ?frs"
      using Suc.prems mem_remove_nth [of a frs i] by auto
    then show ?thesis
      using contained_in_refl by blast
  qed
  then obtain a' where a': "a' \<in> set ?frs" "contained_in a a'"
    by blast
  obtain b where b: "b \<in> set (prune_loop i ?frs)" "contained_in a' b"
    using Suc.IH [OF a'(1)] by blast
  have "prune_loop (Suc i) frs = prune_loop i ?frs"
    by simp
  moreover have "contained_in a b"
    using a'(2) b(2) by (rule contained_in_trans)
  ultimately show ?case
    using b(1) by (intro bexI [of _ b]) simp_all
qed

lemma find_best_fits:
  assumes "find_best r frs i best = Some (k, s)" and "best = None"
  shows "width r \<le> width (frs ! (k - i)) \<and> height r \<le> height (frs ! (k - i))"
proof -
  have "\<And>i best. find_best r frs i best = Some (k, s) \<Longrightarrow>
          best = Some (k, s) \<or>
          (i \<le> k \<and> width r \<le> width (frs ! (k - i)) \<and> height r \<le> height (frs ! (k - i)))"
  proof (induction frs)
    case Nil
    then show ?case by simp
  next
    case (Cons fr frs)
    let ?best = "if width r \<le> width fr \<and> height r \<le> height fr then
          let leftoverX = width fr - width r;
              leftoverY = height fr - height r;
              score = min leftoverX leftoverY
          in (case best of
                None \<Rightarrow> Some (i, score)
              | Some (bestIndex, bestScore) \<Rightarrow>
                  if score < bestScore then Some (i, score) else best)
        else best"
    from Cons.prems have "find_best r frs (i + 1) ?best = Some (k, s)"
      by simp
    from Cons.IH [OF this] consider "?best = Some (k, s)"
      | "i + 1 \<le> k" "width r \<le> width (frs ! (k - (i + 1)))"
        "height r \<le> height (frs ! (k - (i + 1)))"
      by blast
    then show ?case
    proof cases
      case 1
      then show ?thesis
        by (auto simp: Let_def split: if_splits option.splits)
    next
      case 2
      then have "(fr # frs) ! (k - i) = frs ! (k - (i + 1))"
        by (simp add: nth_Cons')
      then show ?thesis using 2 by simp
    qed
  qed
  from this [OF assms(1)] assms(2) show ?thesis by simp
qed

lemma find_best_keeps:
  assumes "best \<noteq> None"
  shows "find_best r frs i best \<noteq> None"
  using assms
proof (induction frs arbitrary: i best)
  case Nil
  then show ?case by simp
next
  case (Cons f frs)
  let ?best = "if width r \<le> width f \<and> height r \<le> height f then
          let leftoverX = width f - width r;
              leftoverY = height f - height r;
              score = min leftoverX leftoverY
          in (case best of
                None \<Rightarrow> Some (i, score)
              | Some (bestIndex, bestScore) \<Rightarrow>
                  if score < bestScore then Some (i, score) else best)
        else best"
  have "?best \<noteq> None"
    using Cons.prems by (auto simp: Let_def split: option.splits)
  from Cons.IH [OF this, of "i + 1"] show ?case by simp
qed

lemma find_best_Some:
  assumes "fr \<in> set frs" and "width r \<le> width fr" and "height r \<le> height fr"
  shows "find_best r frs i best \<noteq> None"
  using assms
proof (induction frs arbitrary: i best)
  case Nil
  then show ?case by simp
next
  case (Cons f frs)
  let ?best = "if width r \<le> width f \<and> height r \<le> height f then
          let leftoverX = width f - width r;
              leftoverY = height f - height r;
              score = min leftoverX leftoverY
          in (case best of
                None \<Rightarrow> Some (i, score)
              | Some (bestIndex, bestScore) \<Rightarrow>
                  if score < bestScore then Some (i, score) else best)
        else best"
  show ?case
  proof (cases "f = fr")
    case True
    then have "?best \<noteq> None"
      using Cons.prems by (auto simp: Let_def split: option.splits)
    from find_best_keeps [OF this, of r frs "i + 1"] show ?thesis by simp
  next
    case False
    then have "fr \<in> set frs" using Cons.prems by simp
    from Cons.IH [OF this Cons.prems(2,3), of "i + 1" ?best] show ?thesis by simp
  qed
qed

lemma place_rect_found:
  assumes "find_best r frs 0 None = Some (k, s)"
  shows "place_rect targetWidth totalHeight r (frs, pl) =
    Inr (pruneFreeRects (remove_nth k frs @ remainders r (frs ! k)),
         pl @ [\<lparr>width = width r, height = height r, px = px (frs ! k), py = py (frs ! k)\<rparr>])"
  using assms find_best_in_range [OF assms]
  by (simp add: place_rect_def Let_def)

lemma remainders_contained:
  assumes "0 \<le> width r" "0 \<le> height r" "height r \<le> height t"
  shows "\<forall>n \<in> set (remainders r t). contained_in n t"
  using assms
  by (auto simp: remainders_def Let_def right_of_def bottom_of_def contained_in_def gap_def)

lemma remainders_apart_placed:
  "\<forall>n \<in> set (remainders r t).
      apart n \<lparr>width = width r, height = height r, px = px t, py = py t\<rparr>"
  by (auto simp: remainders_def Let_def right_of_def bottom_of_def apart_def overlap_def gap_def)

lemma remainders_sorted: "sorted_wrt apart (remainders r t)"
  by (auto simp: remainders_def Let_def right_of_def bottom_of_def apart_def overlap_def gap_def)

lemma bottom_in_remainders:
  assumes "0 < width t" and "0 < height t - height r - gap"
  shows "bottom_of r t \<in> set (remainders r t)"
  using assms by (simp add: remainders_def Let_def bottom_of_def)

lemma place_rect_apart:
  assumes found: "find_best r frs 0 None = Some (k, s)"
    and step: "place_rect targetWidth totalHeight r (frs, pl) = Inr (frs', pl')"
    and nonneg: "0 \<le> width r" "0 \<le> height r"
    and free: "sorted_wrt apart frs" and placed: "sorted_wrt apart pl"
    and cross: "\<forall>f \<in> set frs. \<forall>p \<in> set pl. apart f p"
  shows "sorted_wrt apart frs' \<and> sorted_wrt apart pl' \<and>
         (\<forall>f \<in> set frs'. \<forall>p \<in> set pl'. apart f p)"
proof -
  define t where "t = frs ! k"
  define p where "p = \<lparr>width = width r, height = height r, px = px t, py = py t\<rparr>"
  define news where "news = remainders r t"
  define frs2 where "frs2 = remove_nth k frs"
  have k: "k < length frs"
    by (rule find_best_in_range [OF found])
  have fits: "width r \<le> width t" "height r \<le> height t"
    using find_best_fits [OF found] by (simp_all add: t_def)
  have res: "frs' = pruneFreeRects (frs2 @ news)" "pl' = pl @ [p]"
    using step unfolding place_rect_found [OF found]
    by (simp_all add: t_def p_def news_def frs2_def)
  have t_mem: "t \<in> set frs"
    using k by (simp add: t_def)
  have p_in_t: "contained_in p t"
    using fits by (simp add: contained_in_def p_def)
  have news_in_t: "\<forall>n \<in> set news. contained_in n t"
    unfolding news_def by (rule remainders_contained [OF nonneg fits(2)])
  have news_p: "\<forall>n \<in> set news. apart n p"
    unfolding news_def p_def by (rule remainders_apart_placed)
  have news_sorted: "sorted_wrt apart news"
    unfolding news_def by (rule remainders_sorted)
  have frs2_t: "\<forall>f \<in> set frs2. apart f t"
    using apart_from_removed [OF free k] by (simp add: frs2_def t_def)
  have frs2_sub: "set frs2 \<subseteq> set frs"
    by (simp add: frs2_def set_remove_nth)
  have t_pl: "\<forall>q \<in> set pl. apart t q"
    using cross t_mem by blast
  have frs2_news: "\<forall>f \<in> set frs2. \<forall>n \<in> set news. apart f n"
    using frs2_t news_in_t by (blast intro: apart_contained)
  have sorted3: "sorted_wrt apart (frs2 @ news)"
    unfolding sorted_wrt_append
    using sorted_wrt_remove_nth [OF free, of k] news_sorted frs2_news
    by (simp add: frs2_def)
  have cross3: "\<forall>f \<in> set (frs2 @ news). \<forall>q \<in> set (pl @ [p]). apart f q"
  proof (intro ballI)
    fix f q
    assume f: "f \<in> set (frs2 @ news)" and q: "q \<in> set (pl @ [p])"
    show "apart f q"
    proof (cases "q = p")
      case True
      show ?thesis
      proof (cases "f \<in> set frs2")
        case True
        then have "apart f t" using frs2_t by blast
        then show ?thesis
          using p_in_t \<open>q = p\<close> by (blast intro: apart_contained)
      next
        case False
        then have "f \<in> set news" using f by simp
        then show ?thesis using news_p \<open>q = p\<close> by blast
      qed
    next
      case False
      then have qpl: "q \<in> set pl" using q by simp
      show ?thesis
      proof (cases "f \<in> set frs2")
        case True
        then show ?thesis using frs2_sub cross qpl by blast
      next
        case False
        then have "f \<in> set news" using f by simp
        then have "contained_in f t" using news_in_t by blast
        moreover have "apart q t" using t_pl qpl by (blast intro: apart_sym)
        ultimately show ?thesis
          by (blast intro: apart_sym apart_contained)
      qed
    qed
  qed
  have "sorted_wrt apart frs'"
    unfolding res pruneFreeRects_def by (rule sorted_wrt_prune_loop [OF sorted3])
  moreover have "\<forall>q \<in> set pl. apart q p"
    using t_pl p_in_t by (blast intro: apart_sym apart_contained)
  then have "sorted_wrt apart pl'"
    unfolding res sorted_wrt_append using placed by simp
  moreover have "\<forall>f \<in> set frs'. \<forall>q \<in> set pl'. apart f q"
    using cross3 set_pruneFreeRects [of "frs2 @ news"] unfolding res by blast
  ultimately show ?thesis by blast
qed

lemma place_rect_room:
  assumes T: "0 < targetWidth"
    and r: "0 \<le> width r" "width r \<le> targetWidth" "0 \<le> height r"
    and R: "0 \<le> R"
    and B: "B \<in> set frs" "targetWidth \<le> width B" "height r + gap + R \<le> height B"
  shows "find_best r frs 0 None \<noteq> None"
    and "place_rect targetWidth totalHeight r (frs, pl) = Inr (frs', pl') \<Longrightarrow> 0 < R \<Longrightarrow>
           \<exists>B' \<in> set frs'. targetWidth \<le> width B' \<and> R \<le> height B'"
proof -
  have fitsB: "width r \<le> width B" "height r \<le> height B"
    using r R B by (simp_all add: gap_def)
  show some: "find_best r frs 0 None \<noteq> None"
    by (rule find_best_Some [OF B(1) fitsB])
  assume step: "place_rect targetWidth totalHeight r (frs, pl) = Inr (frs', pl')" and pos: "0 < R"
  obtain k s where found: "find_best r frs 0 None = Some (k, s)"
    using some by auto
  define t where "t = frs ! k"
  define frs3 where "frs3 = remove_nth k frs @ remainders r t"
  have res: "frs' = pruneFreeRects frs3"
    using step unfolding place_rect_found [OF found]
    by (simp add: t_def frs3_def)
  have "\<exists>B3 \<in> set frs3. targetWidth \<le> width B3 \<and> R \<le> height B3"
  proof (cases "B = t")
    case True
    have "0 < width t" "0 < height t - height r - gap"
      using True B T pos by simp_all
    then have "bottom_of r t \<in> set frs3"
      using bottom_in_remainders [of t r] by (simp add: frs3_def)
    moreover have "targetWidth \<le> width (bottom_of r t)" "R \<le> height (bottom_of r t)"
      using True B by (simp_all add: bottom_of_def)
    ultimately show ?thesis by blast
  next
    case False
    then have "B \<in> set (remove_nth k frs)"
      using B(1) mem_remove_nth [of B frs k] by (simp add: t_def)
    then have "B \<in> set frs3" by (simp add: frs3_def)
    moreover have "R \<le> height B" using B(3) r(3) by (simp add: gap_def)
    ultimately show ?thesis using B(2) by blast
  qed
  then obtain B3 where B3: "B3 \<in> set frs3" "targetWidth \<le> width B3" "R \<le> height B3"
    by blast
  obtain C where C: "C \<in> set frs'" "contained_in B3 C"
    using prune_loop_covers [OF B3(1), of "length frs3"] by (auto simp: res pruneFreeRects_def)
  have "targetWidth \<le> width C" "R \<le> height C"
    using C(2) B3(2,3) by (auto simp: contained_in_def)
  then show "\<exists>B' \<in> set frs'. targetWidth \<le> width B' \<and> R \<le> height B'"
    using C(1) by blast
qed

lemma place_all_apart:
  assumes "place_all targetWidth totalHeight rs (frs, pl) = Inr (frs', pl')"
    and "\<forall>r \<in> set rs. 0 \<le> width r \<and> width r \<le> targetWidth \<and> 0 \<le> height r"
    and "0 < targetWidth"
    and "sorted_wrt apart frs" and "sorted_wrt apart pl"
    and "\<forall>f \<in> set frs. \<forall>p \<in> set pl. apart f p"
    and "rs \<noteq> [] \<Longrightarrow> \<exists>B \<in> set frs. targetWidth \<le> width B
            \<and> sum_list (map (\<lambda>r. height r + gap) rs) \<le> height B"
  shows "sorted_wrt apart pl'"
  using assms
proof (induction rs arbitrary: frs pl)
  case Nil
  then show ?case by simp
next
  case (Cons r rs)
  let ?R = "sum_list (map (\<lambda>r. height r + gap) rs)"
  have r: "0 \<le> width r" "width r \<le> targetWidth" "0 \<le> height r"
    using Cons.prems(2) by simp_all
  have R: "0 \<le> ?R"
    using Cons.prems(2) by (auto intro!: sum_list_nonneg simp: gap_def)
  obtain B where B: "B \<in> set frs" "targetWidth \<le> width B" "height r + gap + ?R \<le> height B"
    using Cons.prems(7) by (auto simp: add.assoc)
  obtain frs1 pl1 where step: "place_rect targetWidth totalHeight r (frs, pl) = Inr (frs1, pl1)"
    using Cons.prems(1) by (auto split: sum.splits)
  obtain k s where found: "find_best r frs 0 None = Some (k, s)"
    using place_rect_room(1) [OF Cons.prems(3) r R B] by auto
  have inv: "sorted_wrt apart frs1 \<and> sorted_wrt apart pl1 \<and>
         (\<forall>f \<in> set frs1. \<forall>p \<in> set pl1. apart f p)"
    by (rule place_rect_apart [OF found step r(1,3) Cons.prems(4,5,6)])
  have room: "\<exists>B' \<in> set frs1. targetWidth \<le> width B' \<and> ?R \<le> height B'" if ne: "rs \<noteq> []"
  proof -
    obtain r' rs' where "rs = r' # rs'" using ne by (cases rs) auto
    moreover have "0 \<le> height r'" "0 \<le> sum_list (map (\<lambda>r. height r + gap) rs')"
      using Cons.prems(2) calculation by (auto intro!: sum_list_nonneg simp: gap_def)
    ultimately have "0 < ?R" by (simp add: gap_def)
    then show ?thesis
      using place_rect_room(2) [OF Cons.prems(3) r R B step] by blast
  qed
  have rest: "place_all targetWidth totalHeight rs (frs1, pl1) = Inr (frs', pl')"
    using Cons.prems(1) step by simp
  show ?case
    by (rule Cons.IH [OF rest]) (use Cons.prems(2,3) inv room in auto)
qed

lemma sum_list_insert_by:
  "sum_list (map f (insert_by cmp v ws)) = (f v :: real) + sum_list (map f ws)"
  by (induction ws) auto

lemma sum_list_foldl_insert_by:
  "sum_list (map f (foldl (\<lambda>acc v. insert_by cmp v acc) acc vs))
     = sum_list (map f acc) + (sum_list (map f vs) :: real)"
  by (induction vs arbitrary: acc) (auto simp: sum_list_insert_by)

lemma sum_list_sort_by: "sum_list (map f (sort_by cmp vs)) = (sum_list (map f vs) :: real)"
  by (simp add: sort_by_def sum_list_foldl_insert_by)

lemma fold_heights: "fold (\<lambda>r s. s + height (r :: dims)) rs s = s + sum_list (map height rs)"
  by (induction rs arbitrary: s) simp_all

lemma sum_heights_gaps:
  "sum_list (map (\<lambda>r. height (r :: dims) + gap) rs) = sum_list (map height rs) + real (length rs) * gap"
  by (induction rs) (simp_all add: algebra_simps)

lemma packMaxRects_apart:
  assumes "packMaxRects rects targetWidth = Inr res"
    and "\<forall>r \<in> set rects. 0 < width r \<and> width r \<le> targetWidth \<and> 0 < height r"
  shows "sorted_wrt apart (placed res)"
proof (cases "rects = []")
  case True
  then show ?thesis
    using assms(1) by (auto simp: packMaxRects_def sort_by_def)
next
  case False
  let ?H = "fold (\<lambda>r s. s + height r) rects 0 + real (length rects) * gap"
  let ?free = "[\<lparr>width = targetWidth, height = ?H, px = 0, py = 0\<rparr>]"
  let ?sorted = "sort_by by_max_side rects"
  obtain frs' ps where run: "place_all targetWidth ?H ?sorted (?free, []) = Inr (frs', ps)"
    and res: "placed res = ps"
    using assms(1) by (auto simp: packMaxRects_def Let_def split: sum.splits)
  obtain r0 where "r0 \<in> set rects" using False by (cases rects) auto
  then have T: "0 < targetWidth"
    using assms(2) by force
  have H: "sum_list (map (\<lambda>r. height r + gap) ?sorted) = ?H"
    by (simp add: sum_heights_gaps sum_list_sort_by length_sort_by fold_heights)
  have "sorted_wrt apart ps"
  proof (rule place_all_apart [OF run _ T])
    show "\<forall>r \<in> set ?sorted. 0 \<le> width r \<and> width r \<le> targetWidth \<and> 0 \<le> height r"
      using assms(2) by (auto simp: set_sort_by intro: less_imp_le)
    show "sorted_wrt apart ?free" "sorted_wrt apart []"
      "\<forall>f \<in> set ?free. \<forall>p \<in> set []. apart f p"
      by simp_all
    show "\<exists>B \<in> set ?free. targetWidth \<le> width B
            \<and> sum_list (map (\<lambda>r. height r + gap) ?sorted) \<le> height B"
      unfolding H by simp
  qed
  then show ?thesis by (simp add: res)
qed

end
